theory Spec2Isabelle
  imports Main "HOL-Library.Sublist" "HOL-Library.Monad_Syntax" "HOL-Library.Multiset" "HOL-Library.List_Lexorder"
begin

section \<open>The document tree of the host editor\<close>

text \<open>
  The command of \<^verbatim>\<open>codeblockcommand.js\<close> works on the model tree of the host editor.
  An element is an object with an identity, a name and an ordered list of children; the
  identity is what JavaScript's \<^verbatim>\<open>==\<close> compares. Every node of the model is an element
  of offset size 1 (the command only creates positions before and after block elements).
  A value of type \<open>'a option\<close> that is the result of an operation is \<open>None\<close> when the
  JavaScript throws; a nullable JavaScript value is an inner \<open>option\<close>.
\<close>

datatype node = Node (nid: nat) (nname: string) (kids: "node list")

text \<open>A position is a root and a path: the path to its parent and an offset in it.\<close>

record position =
  parentPath :: "nat list"
  offset :: nat

record Range =
  range_start :: position
  range_end :: position

datatype elementOrPosition = Element nat | Position position

fun ids :: "node \<Rightarrow> nat list" where
  "ids (Node i n ks) = i # concat (map ids ks)"

text \<open>Walking a path down from the root, as the getter \<^verbatim>\<open>position.parent\<close> does.\<close>

fun getNodeByPath :: "node \<Rightarrow> nat list \<Rightarrow> node option" where
  "getNodeByPath t [] = Some t"
| "getNodeByPath t (i # p) =
     (if i < length (kids t) then getNodeByPath (kids t ! i) p else None)"

text \<open>\<^verbatim>\<open>element.getPath()\<close>: the path of the element with a given identity; \<open>None\<close> when
  the element is not in the tree.\<close>

fun getPath :: "node \<Rightarrow> nat \<Rightarrow> nat list option"
  and getPathIn :: "node list \<Rightarrow> nat \<Rightarrow> nat \<Rightarrow> nat list option" where
  "getPath (Node i n ks) x = (if i = x then Some [] else getPathIn ks 0 x)"
| "getPathIn [] k x = None"
| "getPathIn (c # cs) k x =
     (case getPath c x of Some p \<Rightarrow> Some (k # p) | None \<Rightarrow> getPathIn cs (Suc k) x)"

text \<open>\<^verbatim>\<open>element.parent\<close> and \<^verbatim>\<open>element.nextSibling\<close>; \<open>None\<close> is JavaScript's null
  (the root and an element outside the tree have no parent and no sibling).\<close>

definition parent :: "node \<Rightarrow> nat \<Rightarrow> node option" where
  "parent t x =
     (case getPath t x of
        None \<Rightarrow> None
      | Some p \<Rightarrow> if p = [] then None else getNodeByPath t (butlast p))"

definition nextSibling :: "node \<Rightarrow> nat \<Rightarrow> nat option" where
  "nextSibling t x =
     (case parent t x of
        None \<Rightarrow> None
      | Some par \<Rightarrow>
          (case getPath t x of
             None \<Rightarrow> None
           | Some p \<Rightarrow>
               if Suc (last p) < length (kids par)
               then Some (nid (kids par ! Suc (last p))) else None))"

text \<open>\<^verbatim>\<open>Position.createBefore\<close> and \<^verbatim>\<open>Position.createAfter\<close> throw for an item without
  a parent.\<close>

definition createBefore :: "node \<Rightarrow> nat \<Rightarrow> position option" where
  "createBefore t x =
     (case getPath t x of
        None \<Rightarrow> None
      | Some p \<Rightarrow>
          if p = [] then None else Some \<lparr>parentPath = butlast p, offset = last p\<rparr>)"

definition createAfter :: "node \<Rightarrow> nat \<Rightarrow> position option" where
  "createAfter t x =
     (case getPath t x of
        None \<Rightarrow> None
      | Some p \<Rightarrow>
          if p = [] then None else Some \<lparr>parentPath = butlast p, offset = Suc (last p)\<rparr>)"

definition position_parent :: "node \<Rightarrow> position \<Rightarrow> node option" where
  "position_parent t pos = getNodeByPath t (parentPath pos)"

definition isAtStart :: "position \<Rightarrow> bool" where
  "isAtStart pos = (offset pos = 0)"

definition isAtEnd :: "node \<Rightarrow> position \<Rightarrow> bool option" where
  "isAtEnd t pos =
     do { par \<leftarrow> position_parent t pos; Some (offset pos = length (kids par)) }"

definition nodeAfter :: "node \<Rightarrow> position \<Rightarrow> nat option option" where
  "nodeAfter t pos =
     do { par \<leftarrow> position_parent t pos;
          if offset pos < length (kids par) then Some (Some (nid (kids par ! offset pos)))
          else if offset pos = length (kids par) then Some None
          else None }"

definition isFlat :: "Range \<Rightarrow> bool" where
  "isFlat r = (parentPath (range_start r) = parentPath (range_end r))"

text \<open>\<^verbatim>\<open>new Element( name )\<close>: an element with no children and an identity that no
  element of the tree has.\<close>

definition newElement :: "node \<Rightarrow> string \<Rightarrow> node" where
  "newElement t name = Node (Suc (Max (set (ids t)))) name []"

text \<open>Replacing the children of the element at a path.\<close>

fun updateKids :: "nat list \<Rightarrow> (node list \<Rightarrow> node list) \<Rightarrow> node \<Rightarrow> node option" where
  "updateKids [] f t = Some (Node (nid t) (nname t) (f (kids t)))"
| "updateKids (k # p) f t =
     (if k < length (kids t)
      then (case updateKids p f (kids t ! k) of
              None \<Rightarrow> None
            | Some c \<Rightarrow> Some (Node (nid t) (nname t) ((kids t)[k := c])))
      else None)"

section \<open>The tree-edit primitives of the host's writer\<close>

text \<open>
  Modelled from the spec: the writer's \<^verbatim>\<open>wrap\<close>, \<^verbatim>\<open>unwrap\<close>, \<^verbatim>\<open>move\<close>,
  \<^verbatim>\<open>split\<close> and \<^verbatim>\<open>merge\<close> belong to the host document engine, which the repository
  imports and does not contain. Sections 4.4 and 6 of the spec describe them: wrap inserts
  a new container around a range's content, unwrap removes a container and promotes its
  children to its former position, move relocates a flat range to a target position,
  split produces a new sibling holding the remainder after the position, and merge appends
  the right element's children to the left element and deletes the right one.
\<close>

definition wrap :: "node \<Rightarrow> Range \<Rightarrow> node \<Rightarrow> node option" where
  "wrap t r el =
     (if \<not> isFlat r \<or> kids el \<noteq> [] \<or> getPath t (nid el) \<noteq> None then None
      else do {
        par \<leftarrow> position_parent t (range_start r);
        let s = offset (range_start r); e = offset (range_end r) in
        if s \<le> e \<and> e \<le> length (kids par)
        then updateKids (parentPath (range_start r))
               (\<lambda>ks. take s ks @ [Node (nid el) (nname el) (take (e - s) (drop s ks))] @ drop e ks) t
        else None })"

definition unwrap :: "node \<Rightarrow> nat \<Rightarrow> node option" where
  "unwrap t x =
     do { p \<leftarrow> getPath t x;
          el \<leftarrow> getNodeByPath t p;
          if p = [] then None
          else updateKids (butlast p)
                 (\<lambda>ks. take (last p) ks @ kids el @ drop (Suc (last p)) ks) t }"

text \<open>The target of a move is transformed by the deletion of the moved nodes.\<close>

definition getTransformedByDeletion :: "position \<Rightarrow> position \<Rightarrow> nat \<Rightarrow> position option" where
  "getTransformedByDeletion pos deletePosition howMany =
     (let dp = parentPath deletePosition; pp = parentPath pos in
      if dp = pp then
        (if offset deletePosition < offset pos
         then (if offset deletePosition + howMany > offset pos then None
               else Some (pos\<lparr>offset := offset pos - howMany\<rparr>))
         else Some pos)
      else if strict_prefix dp pp then
        (let i = length dp in
         if offset deletePosition \<le> pp ! i
         then (if offset deletePosition + howMany > pp ! i then None
               else Some (pos\<lparr>parentPath := pp[i := pp ! i - howMany]\<rparr>))
         else Some pos)
      else Some pos)"

definition move :: "node \<Rightarrow> Range \<Rightarrow> position \<Rightarrow> node option" where
  "move t r target =
     (if \<not> isFlat r then None
      else do {
        src \<leftarrow> position_parent t (range_start r);
        dst \<leftarrow> position_parent t target;
        let sp = parentPath (range_start r); tp = parentPath target;
            s = offset (range_start r); e = offset (range_end r) in
        if \<not> (s \<le> e \<and> e \<le> length (kids src)) then None
        else if sp = tp \<and> s < offset target \<and> offset target < e then None
        else if strict_prefix sp tp \<and> s \<le> tp ! length sp \<and> tp ! length sp < e then None
        else do {
          t1 \<leftarrow> updateKids sp (\<lambda>ks. take s ks @ drop e ks) t;
          target' \<leftarrow> getTransformedByDeletion target (range_start r) (e - s);
          dst' \<leftarrow> position_parent t1 target';
          if offset target' \<le> length (kids dst')
          then updateKids (parentPath target')
                 (\<lambda>ks. take (offset target') ks @ take (e - s) (drop s (kids src))
                        @ drop (offset target') ks) t1
          else None } })"

definition split :: "node \<Rightarrow> position \<Rightarrow> node option" where
  "split t pos =
     do { el \<leftarrow> position_parent t pos;
          let sp = parentPath pos in
          if sp = [] \<or> offset pos > length (kids el) then None
          else updateKids (butlast sp)
                 (\<lambda>ks. take (last sp) ks
                        @ [Node (nid el) (nname el) (take (offset pos) (kids el)),
                           Node (nid (newElement t (nname el))) (nname el)
                             (drop (offset pos) (kids el))]
                        @ drop (Suc (last sp)) ks) t }"

definition merge :: "node \<Rightarrow> position \<Rightarrow> node option" where
  "merge t pos =
     do { par \<leftarrow> position_parent t pos;
          let k = offset pos in
          if 0 < k \<and> k < length (kids par)
          then updateKids (parentPath pos)
                 (\<lambda>ks. take (k - 1) ks
                        @ [Node (nid (ks ! (k - 1))) (nname (ks ! (k - 1)))
                             (kids (ks ! (k - 1)) @ kids (ks ! k))]
                        @ drop (Suc k) ks) t
          else None }"

section \<open>The schema\<close>

text \<open>
  The host's schema answers \<^verbatim>\<open>checkChild( context, child )\<close> from its registered
  definitions; that answer is the parameter \<open>hostCheck\<close>, a function of the names of
  the context (from the root down) and the name of the child. The plugin
  (\<^verbatim>\<open>codeblockediting.js\<close>) adds a child check that is asked first and answers
  \<open>False\<close> for a code block in a context that ends with a code block;
  \<^verbatim>\<open>ctx.endsWith\<close> compares the names joined by single spaces.
\<close>

fun joinNames :: "string list \<Rightarrow> string" where
  "joinNames [] = []"
| "joinNames [n] = n"
| "joinNames (n # m # ns) = n @ '' '' @ joinNames (m # ns)"

definition endsWith :: "string list \<Rightarrow> string \<Rightarrow> bool" where
  "endsWith ctx query = suffix query (joinNames ctx)"

definition checkChild :: "(string list \<Rightarrow> string \<Rightarrow> bool) \<Rightarrow> string list \<Rightarrow> string \<Rightarrow> bool" where
  "checkChild hostCheck ctx childName =
     (if endsWith ctx ''codeBlock'' \<and> childName = ''codeBlock'' then False
      else hostCheck ctx childName)"

text \<open>The names of the ancestors of an element, itself included, from the root down:
  the schema context of the element.\<close>

fun namesAlong :: "node \<Rightarrow> nat list \<Rightarrow> string list" where
  "namesAlong t [] = [nname t]"
| "namesAlong t (i # p) =
     nname t # (if i < length (kids t) then namesAlong (kids t ! i) p else [])"

definition contextOf :: "node \<Rightarrow> nat \<Rightarrow> string list option" where
  "contextOf t x = do { p \<leftarrow> getPath t x; Some (namesAlong t p) }"

definition nameOf :: "node \<Rightarrow> nat \<Rightarrow> string option" where
  "nameOf t x = do { p \<leftarrow> getPath t x; el \<leftarrow> getNodeByPath t p; Some (nname el) }"

section \<open>The command\<close>

definition parentOf :: "node \<Rightarrow> elementOrPosition \<Rightarrow> node option" where
  "parentOf t eop =
     (case eop of Element x \<Rightarrow> parent t x | Position pos \<Rightarrow> position_parent t pos)"

text \<open>\<^verbatim>\<open>findBlock\<close> throws when its argument has no parent.\<close>

definition findBlock :: "node \<Rightarrow> elementOrPosition \<Rightarrow> nat option option" where
  "findBlock t eop =
     do { par \<leftarrow> parentOf t eop;
          Some (if nname par = ''codeBlock'' then Some (nid par) else None) }"

definition checkCanBeBlocked ::
  "(string list \<Rightarrow> string \<Rightarrow> bool) \<Rightarrow> node \<Rightarrow> nat \<Rightarrow> bool option" where
  "checkCanBeBlocked hostCheck t block =
     do { par \<leftarrow> parent t block;
          ctx \<leftarrow> contextOf t (nid par);
          name \<leftarrow> nameOf t block;
          let isCBAllowed = checkChild hostCheck ctx ''codeBlock'';
              isBlockAllowedInCB = checkChild hostCheck [''$root'', ''codeBlock''] name in
          Some (isCBAllowed \<and> isBlockAllowedInCB) }"

function rangesLoop ::
  "node \<Rightarrow> nat list \<Rightarrow> position option \<Rightarrow> nat \<Rightarrow> Range list \<Rightarrow> Range list option" where
  "rangesLoop t blocks startPosition i ranges =
     (if i < length blocks then
        (let block = blocks ! i;
             nextBlock = (if Suc i < length blocks then Some (blocks ! Suc i) else None) in
         case (case startPosition of None \<Rightarrow> createBefore t block | Some sp \<Rightarrow> Some sp) of
           None \<Rightarrow> None
         | Some sp \<Rightarrow>
             if nextBlock = None \<or> nextSibling t block \<noteq> nextBlock then
               (case createAfter t block of
                  None \<Rightarrow> None
                | Some ep \<Rightarrow>
                    rangesLoop t blocks None (Suc i)
                      (ranges @ [\<lparr>range_start = sp, range_end = ep\<rparr>]))
             else rangesLoop t blocks (Some sp) (Suc i) ranges)
      else Some ranges)"
  by pat_completeness auto
termination
  by (relation "measure (\<lambda>(t, blocks, sp, i, ranges). length blocks - i)") auto

declare rangesLoop.simps [simp del]

definition getRangesOfBlockGroups :: "node \<Rightarrow> nat list \<Rightarrow> Range list option" where
  "getRangesOfBlockGroups t blocks = rangesLoop t blocks None 0 []"

text \<open>The body of the \<^verbatim>\<open>forEach\<close> of \<^verbatim>\<open>_removeBlock\<close>, for one group range.\<close>

definition removeBlockGroup :: "node \<Rightarrow> Range \<Rightarrow> node option" where
  "removeBlockGroup t groupRange =
     (if isAtStart (range_start groupRange) then
        do { atEnd \<leftarrow> isAtEnd t (range_end groupRange);
             c \<leftarrow> position_parent t (range_start groupRange);
             if atEnd then unwrap t (nid c)
             else do { positionBefore \<leftarrow> createBefore t (nid c);
                       move t groupRange positionBefore } }
      else
        do { atEnd \<leftarrow> isAtEnd t (range_end groupRange);
             t1 \<leftarrow> (if \<not> atEnd then split t (range_end groupRange) else Some t);
             c \<leftarrow> position_parent t1 (range_end groupRange);
             positionAfter \<leftarrow> createAfter t1 (nid c);
             move t1 groupRange positionAfter })"

fun removeBlockGroups :: "node \<Rightarrow> Range list \<Rightarrow> node option" where
  "removeBlockGroups t [] = Some t"
| "removeBlockGroups t (r # rs) = do { t' \<leftarrow> removeBlockGroup t r; removeBlockGroups t' rs }"

definition removeBlock :: "node \<Rightarrow> nat list \<Rightarrow> node option" where
  "removeBlock t blocks =
     do { ranges \<leftarrow> getRangesOfBlockGroups t blocks; removeBlockGroups t (rev ranges) }"

text \<open>The body of the \<^verbatim>\<open>forEach\<close> of \<^verbatim>\<open>_applyBlock\<close>: the state is the tree and the
  array \<^verbatim>\<open>blocksToMerge\<close>.\<close>

definition applyBlockGroup ::
  "node \<times> nat option list \<Rightarrow> Range \<Rightarrow> (node \<times> nat option list) option" where
  "applyBlockGroup st groupRange =
     (case st of (t, blocksToMerge) \<Rightarrow>
        do { block \<leftarrow> findBlock t (Position (range_start groupRange));
             if block = None then
               do { t' \<leftarrow> wrap t groupRange (newElement t ''codeBlock'');
                    block' \<leftarrow> nodeAfter t' (range_start groupRange);
                    Some (t', blocksToMerge @ [block']) }
             else Some (t, blocksToMerge @ [block]) })"

fun applyBlockGroups ::
  "node \<times> nat option list \<Rightarrow> Range list \<Rightarrow> (node \<times> nat option list) option" where
  "applyBlockGroups st [] = Some st"
| "applyBlockGroups st (r # rs) = do { st' \<leftarrow> applyBlockGroup st r; applyBlockGroups st' rs }"

text \<open>The callback of the \<^verbatim>\<open>reduce\<close>: the state is the tree and \<^verbatim>\<open>currentBlock\<close>.\<close>

definition mergeStep :: "node \<times> nat option \<Rightarrow> nat option \<Rightarrow> (node \<times> nat option) option" where
  "mergeStep st nextBlock =
     (case st of (t, currentBlock) \<Rightarrow>
        do { cur \<leftarrow> currentBlock;
             if nextSibling t cur = nextBlock then
               do { pos \<leftarrow> createAfter t cur;
                    t' \<leftarrow> merge t pos;
                    Some (t', currentBlock) }
             else Some (t, nextBlock) })"

fun mergeSteps :: "node \<times> nat option \<Rightarrow> nat option list \<Rightarrow> (node \<times> nat option) option" where
  "mergeSteps st [] = Some st"
| "mergeSteps st (b # bs) = do { st' \<leftarrow> mergeStep st b; mergeSteps st' bs }"

text \<open>\<^verbatim>\<open>reduce\<close> without an initial value throws on an empty array.\<close>

definition reduceMerge :: "node \<Rightarrow> nat option list \<Rightarrow> node option" where
  "reduceMerge t bs =
     (case bs of
        [] \<Rightarrow> None
      | b # bs' \<Rightarrow> do { st \<leftarrow> mergeSteps (t, b) bs'; Some (fst st) })"

definition applyBlock :: "node \<Rightarrow> nat list \<Rightarrow> node option" where
  "applyBlock t blocks =
     do { ranges \<leftarrow> getRangesOfBlockGroups t blocks;
          st \<leftarrow> applyBlockGroups (t, []) (rev ranges);
          reduceMerge (fst st) (rev (snd st)) }"

text \<open>\<^verbatim>\<open>Array.prototype.filter\<close> with a callback that may throw.\<close>

fun filterBlocks :: "(nat \<Rightarrow> bool option) \<Rightarrow> nat list \<Rightarrow> nat list option" where
  "filterBlocks f [] = Some []"
| "filterBlocks f (b # bs) =
     do { keep \<leftarrow> f b; rest \<leftarrow> filterBlocks f bs; Some (if keep then b # rest else rest) }"

text \<open>The editor: the document, the selected blocks in document order, the host's
  schema, and the two observable properties of the command.\<close>

record editor =
  document :: node
  selectedBlocks :: "nat list"
  schema :: "string list \<Rightarrow> string \<Rightarrow> bool"
  "value" :: bool
  isEnabled :: bool

definition isBlocked :: "node \<Rightarrow> nat \<Rightarrow> bool option" where
  "isBlocked t block = do { b \<leftarrow> findBlock t (Element block); Some (b \<noteq> None) }"

definition canBlock :: "(string list \<Rightarrow> string \<Rightarrow> bool) \<Rightarrow> node \<Rightarrow> nat \<Rightarrow> bool option" where
  "canBlock hostCheck t block =
     do { b \<leftarrow> findBlock t (Element block);
          if b \<noteq> None then Some True else checkCanBeBlocked hostCheck t block }"

definition blocksToBlock :: "editor \<Rightarrow> nat list option" where
  "blocksToBlock ed = filterBlocks (canBlock (schema ed) (document ed)) (selectedBlocks ed)"

definition execute :: "editor \<Rightarrow> editor option" where
  "execute ed =
     (if value ed then
        do { blocks \<leftarrow> filterBlocks (isBlocked (document ed)) (selectedBlocks ed);
             t' \<leftarrow> removeBlock (document ed) blocks;
             Some (ed\<lparr>document := t'\<rparr>) }
      else
        do { blocks \<leftarrow> blocksToBlock ed;
             t' \<leftarrow> applyBlock (document ed) blocks;
             Some (ed\<lparr>document := t'\<rparr>) })"

definition first :: "nat list \<Rightarrow> nat option" where
  "first xs = (case xs of [] \<Rightarrow> None | x # _ \<Rightarrow> Some x)"

definition getValue :: "editor \<Rightarrow> bool option" where
  "getValue ed =
     (case first (selectedBlocks ed) of
        None \<Rightarrow> Some False
      | Some firstBlock \<Rightarrow> isBlocked (document ed) firstBlock)"

definition checkEnabled :: "editor \<Rightarrow> bool option" where
  "checkEnabled ed =
     (if value ed then Some True
      else (case first (selectedBlocks ed) of
              None \<Rightarrow> Some False
            | Some firstBlock \<Rightarrow> checkCanBeBlocked (schema ed) (document ed) firstBlock))"

definition refresh :: "editor \<Rightarrow> editor option" where
  "refresh ed =
     do { v \<leftarrow> getValue ed;
          let ed1 = ed\<lparr>value := v\<rparr> in
          do { en \<leftarrow> checkEnabled ed1; Some (ed1\<lparr>isEnabled := en\<rparr>) } }"

section \<open>Notions used to state the properties\<close>

text \<open>The range of a group of blocks: from before its first block to after its last.\<close>

definition groupRange :: "node \<Rightarrow> nat list \<Rightarrow> Range" where
  "groupRange t g =
     \<lparr>range_start = the (createBefore t (hd g)), range_end = the (createAfter t (last g))\<rparr>"

fun siblingRun :: "node \<Rightarrow> nat list \<Rightarrow> bool" where
  "siblingRun t [] = True"
| "siblingRun t [b] = True"
| "siblingRun t (b # c # bs) = (nextSibling t b = Some c \<and> siblingRun t (c # bs))"

fun maximalRuns :: "node \<Rightarrow> nat list \<Rightarrow> nat list list" where
  "maximalRuns t [] = []"
| "maximalRuns t [b] = [[b]]"
| "maximalRuns t (b # c # bs) =
     (if nextSibling t b = Some c
      then (case maximalRuns t (c # bs) of [] \<Rightarrow> [[b]] | g # gs \<Rightarrow> (b # g) # gs)
      else [b] # maximalRuns t (c # bs))"

fun breaks :: "node \<Rightarrow> nat list \<Rightarrow> nat" where
  "breaks t [] = 0"
| "breaks t [b] = 0"
| "breaks t (b # c # bs) = (if nextSibling t b = Some c then 0 else 1) + breaks t (c # bs)"

text \<open>Invariant 2 of the spec fails in a tree when some element has two adjacent children
  that are both code blocks.\<close>

fun adjacentPair :: "node list \<Rightarrow> bool" where
  "adjacentPair (a # b # ks) =
     ((nname a = ''codeBlock'' \<and> nname b = ''codeBlock'') \<or> adjacentPair (b # ks))"
| "adjacentPair ks = False"

fun adjacentContainers :: "node \<Rightarrow> bool" where
  "adjacentContainers (Node i n ks) = (adjacentPair ks \<or> (\<exists>k\<in>set ks. adjacentContainers k))"

text \<open>A flat range: both ends in the element at path \<open>p\<close>.\<close>

definition mkRange :: "nat list \<Rightarrow> nat \<Rightarrow> nat \<Rightarrow> Range" where
  "mkRange p s e = \<lparr>range_start = \<lparr>parentPath = p, offset = s\<rparr>, range_end = \<lparr>parentPath = p, offset = e\<rparr>\<rparr>"

text \<open>Example documents and editors.\<close>

definition permissiveSchema :: "string list \<Rightarrow> string \<Rightarrow> bool" where
  "permissiveSchema ctx name = True"

definition paragraphNode :: "nat \<Rightarrow> node" where
  "paragraphNode i = Node i ''paragraph'' []"

text \<open>The content \<^verbatim>\<open>abcdefgh\<close> of the comment above \<^verbatim>\<open>getRangesOfBlockGroups\<close>:
  eight paragraphs in the root, with the identities 1 to 8.\<close>

definition contentDoc :: node where
  "contentDoc = Node 0 ''$root'' (map paragraphNode [1, 2, 3, 4, 5, 6, 7, 8])"

text \<open>A paragraph followed by a code block of three paragraphs.\<close>

definition mixedDoc :: node where
  "mixedDoc = Node 0 ''$root'' [paragraphNode 5, Node 9 ''codeBlock'' [paragraphNode 1, paragraphNode 2, paragraphNode 3]]"

definition mixedEditor :: editor where
  "mixedEditor = \<lparr>document = mixedDoc, selectedBlocks = [5, 1, 3], schema = permissiveSchema,
     value = False, isEnabled = True\<rparr>"

text \<open>The container of the spec's example: a code block with the children p, q, r, s
  (the identities 1 to 4) in the root.\<close>

definition blockedDoc :: node where
  "blockedDoc = Node 0 ''$root''
     [Node 9 ''codeBlock'' [paragraphNode 1, paragraphNode 2, paragraphNode 3, paragraphNode 4]]"


definition twoBlocksDoc :: node where
  "twoBlocksDoc = Node 0 ''$root''
     [Node 9 ''codeBlock'' [paragraphNode 1], Node 10 ''codeBlock'' [paragraphNode 2]]"

section \<open>Notions used for the passes over all groups\<close>

text \<open>The label of an element: its identity and its name.\<close>

definition label :: "node \<Rightarrow> nat \<times> string" where
  "label n = (nid n, nname n)"

text \<open>Facts about the elements of a tree, listed in document order: the facts of an
  element are computed from its label and the labels of its children.\<close>

fun collect :: "(nat \<Rightarrow> string \<Rightarrow> (nat \<times> string) list \<Rightarrow> 'a list) \<Rightarrow> node \<Rightarrow> 'a list" where
  "collect L (Node i n ks) = L i n (map label ks) @ concat (map (collect L) ks)"

text \<open>The labels of all elements in document order, and the list of all
  (child, parent) pairs of labels.\<close>

definition labels :: "node \<Rightarrow> (nat \<times> string) list" where
  "labels = collect (\<lambda>i n ls. [(i, n)])"

definition childFacts :: "node \<Rightarrow> ((nat \<times> string) \<times> (nat \<times> string)) list" where
  "childFacts = collect (\<lambda>i n ls. map (\<lambda>l. (l, (i, n))) ls)"

text \<open>Two trees agree up to a position (a path followed by an offset) when the elements
  on the path have the same labels in both and everything to the left of the path and
  of the offset is identical.\<close>

fun agreeUpTo :: "nat list \<Rightarrow> node \<Rightarrow> node \<Rightarrow> bool" where
  "agreeUpTo [] t t' = (t = t')"
| "agreeUpTo [s] t t' = (label t = label t' \<and> take s (kids t) = take s (kids t'))"
| "agreeUpTo (k # a # \<pi>) t t' =
     (label t = label t' \<and> take k (kids t) = take k (kids t')
      \<and> k < length (kids t) \<and> k < length (kids t')
      \<and> agreeUpTo (a # \<pi>) (kids t ! k) (kids t' ! k))"

text \<open>The document order of all elements that are not code blocks; a fact that involves
  no code block; a step that keeps all such facts.\<close>

definition blockOrder :: "node \<Rightarrow> (nat \<times> string) list" where
  "blockOrder t = filter (\<lambda>l. snd l \<noteq> ''codeBlock'') (labels t)"

definition goodFact :: "(nat \<times> string) \<times> (nat \<times> string) \<Rightarrow> bool" where
  "goodFact f = (snd (fst f) \<noteq> ''codeBlock'' \<and> snd (snd f) \<noteq> ''codeBlock'')"

definition keepsGoodFacts :: "node \<Rightarrow> node \<Rightarrow> bool" where
  "keepsGoodFacts t t' = (\<forall>f\<in>set (childFacts t). goodFact f \<longrightarrow> f \<in> set (childFacts t'))"

text \<open>A span is a flat range as a triple: the path of its parent, its start offset and
  its end offset. Its start position is the position before it in the parent's parent
  when it starts at offset 0, and its own start otherwise; its last position is the path
  of its last block.\<close>

type_synonym span = "nat list \<times> nat \<times> nat"

definition toRange :: "span \<Rightarrow> Range" where
  "toRange r = (case r of (c, s, e) \<Rightarrow> mkRange c s e)"

definition startPos :: "span \<Rightarrow> nat list" where
  "startPos r = (case r of (c, s, e) \<Rightarrow> if s = 0 then c else c @ [s])"

definition lastPos :: "span \<Rightarrow> nat list" where
  "lastPos r = (case r of (c, s, e) \<Rightarrow> c @ [e - 1])"

definition spanOK :: "node \<Rightarrow> span \<Rightarrow> bool" where
  "spanOK t r = (case r of (c, s, e) \<Rightarrow>
     c \<noteq> [] \<and> s < e \<and>
     (case getNodeByPath t c of None \<Rightarrow> False
      | Some C \<Rightarrow> nname C = ''codeBlock'' \<and> e \<le> length (kids C)))"

text \<open>Blocks listed in document order, without duplicates: the host compares positions
  by their paths, lexicographically.\<close>

definition docOrdered :: "node \<Rightarrow> nat list \<Rightarrow> bool" where
  "docOrdered t bs = sorted_wrt (\<lambda>x y. the (getPath t x) < the (getPath t y)) bs"

definition spanOf :: "node \<Rightarrow> nat list \<Rightarrow> span" where
  "spanOf t g = (let p = the (getPath t (hd g)) in (butlast p, last p, last p + length g))"

text \<open>A code block with two paragraphs followed by a paragraph; the first and the last
  paragraph are selected and \<^verbatim>\<open>value\<close> is true.\<close>

definition partlyBlockedDoc :: node where
  "partlyBlockedDoc = Node 0 ''$root''
     [Node 9 ''codeBlock'' [paragraphNode 1, paragraphNode 2], paragraphNode 3]"

definition partlyBlockedEditor :: editor where
  "partlyBlockedEditor = \<lparr>document = partlyBlockedDoc, selectedBlocks = [1, 3],
     schema = permissiveSchema, value = True, isEnabled = True\<rparr>"

section \<open>Notions used for the Wrap path and the round trip\<close>

text \<open>Erasing the elements whose identities are in a set: the children of an erased
  element take its place. The root is kept.\<close>

fun strip :: "nat set \<Rightarrow> node \<Rightarrow> node" where
  "strip S (Node i n ks) =
     Node i n (concat (map (\<lambda>k. if nid k \<in> S then kids (strip S k) else [strip S k]) ks))"

definition stripKids :: "nat set \<Rightarrow> node list \<Rightarrow> node list" where
  "stripKids S ks = concat (map (\<lambda>k. if nid k \<in> S then kids (strip S k) else [strip S k]) ks)"

text \<open>The pairs of neighbours of a list; for every element of a tree its identity, its
  name and the identities of its children; the pairs of identities of adjacent siblings.\<close>

definition pairs :: "'a list \<Rightarrow> ('a \<times> 'a) list" where
  "pairs xs = zip xs (tl xs)"

definition shapeFacts :: "node \<Rightarrow> (nat \<times> string \<times> nat list) list" where
  "shapeFacts = collect (\<lambda>i n ls. [(i, n, map fst ls)])"

definition adjFacts :: "node \<Rightarrow> (nat \<times> nat) list" where
  "adjFacts = collect (\<lambda>i n ls. pairs (map fst ls))"

text \<open>What \<^verbatim>\<open>writer.wrap\<close> does to the children of the parent of a flat range from
  offset \<open>s\<close> to offset \<open>e\<close>, with a new code block of identity \<open>w\<close>.\<close>

definition wrapKids :: "nat \<Rightarrow> nat \<Rightarrow> nat \<Rightarrow> node list \<Rightarrow> node list" where
  "wrapKids w s e ks = take s ks @ [Node w ''codeBlock'' (take (e - s) (drop s ks))] @ drop e ks"

text \<open>The path of the first block of a span and the path just after its last block; a
  span that the Wrap path can wrap (its parent is not a code block); the identities of
  the blocks of a span.\<close>

definition firstPos :: "span \<Rightarrow> nat list" where
  "firstPos r = (case r of (c, s, e) \<Rightarrow> c @ [s])"

definition afterPos :: "span \<Rightarrow> nat list" where
  "afterPos r = (case r of (c, s, e) \<Rightarrow> c @ [e])"

definition wrapOK :: "node \<Rightarrow> span \<Rightarrow> bool" where
  "wrapOK t r = (case r of (c, s, e) \<Rightarrow>
     s < e \<and>
     (case getNodeByPath t c of None \<Rightarrow> False
      | Some P \<Rightarrow> nname P \<noteq> ''codeBlock'' \<and> e \<le> length (kids P)))"

definition spanIds :: "node \<Rightarrow> span \<Rightarrow> nat list" where
  "spanIds t r = (case r of (c, s, e) \<Rightarrow>
     (case getNodeByPath t c of None \<Rightarrow> []
      | Some P \<Rightarrow> map nid (take (e - s) (drop s (kids P)))))"

text \<open>Three paragraphs, a code block that holds a paragraph, and a fourth paragraph; the
  first, the second and the fourth paragraph are selected and \<^verbatim>\<open>value\<close> is false.\<close>

definition toggleDoc :: node where
  "toggleDoc = Node 0 ''$root''
     [paragraphNode 1, paragraphNode 2, paragraphNode 3,
      Node 9 ''codeBlock'' [paragraphNode 5], paragraphNode 4]"

definition toggleEditor :: editor where
  "toggleEditor = \<lparr>document = toggleDoc, selectedBlocks = [1, 2, 4], schema = permissiveSchema,
     value = False, isEnabled = True\<rparr>"

section \<open>Notions used for the merge pass\<close>

text \<open>What \<^verbatim>\<open>writer.merge\<close> does to the children of the parent of the two merged
  elements, the one at index \<open>j\<close> and its next sibling.\<close>

definition mergeKids :: "nat \<Rightarrow> node list \<Rightarrow> node list" where
  "mergeKids j ks = take j ks
       @ [Node (nid (ks ! j)) (nname (ks ! j)) (kids (ks ! j) @ kids (ks ! Suc j))]
       @ drop (Suc (Suc j)) ks"

text \<open>The container that \<^verbatim>\<open>findBlock\<close> finds for a block; the containers that
  \<^verbatim>\<open>_applyBlock\<close> records for the groups of a selection whose blocks all sit in
  containers, in document order (\<^verbatim>\<open>blocksToMerge\<close> after its \<^verbatim>\<open>reverse\<close>); and the
  condition under which the \<^verbatim>\<open>reduce\<close> over such a list merges nothing: no recorded
  container has the next recorded one as its next sibling.\<close>

definition containerOf :: "node \<Rightarrow> nat \<Rightarrow> nat option" where
  "containerOf t b = (case findBlock t (Element b) of None \<Rightarrow> None | Some r \<Rightarrow> r)"

definition recordedContainers :: "node \<Rightarrow> nat list \<Rightarrow> nat option list" where
  "recordedContainers t bs = map (\<lambda>g. containerOf t (hd g)) (maximalRuns t bs)"

definition mergesNothing :: "node \<Rightarrow> nat option list \<Rightarrow> bool" where
  "mergesNothing t refs =
     list_all (\<lambda>p. case fst p of None \<Rightarrow> False | Some c \<Rightarrow> nextSibling t c \<noteq> snd p) (pairs refs)"

text \<open>Two code blocks with a paragraph between them, the second directly followed by a
  third code block; the paragraphs of the first two code blocks are selected.\<close>

definition spacedBlocksDoc :: node where
  "spacedBlocksDoc = Node 0 ''$root''
     [Node 20 ''codeBlock'' [paragraphNode 1], paragraphNode 5,
      Node 21 ''codeBlock'' [paragraphNode 2], Node 22 ''codeBlock'' [paragraphNode 4]]"

definition spacedBlocksEditor :: editor where
  "spacedBlocksEditor = \<lparr>document = spacedBlocksDoc, selectedBlocks = [1, 2],
     schema = permissiveSchema, value = True, isEnabled = True\<rparr>"


section \<open>Paths and identities\<close>

lemma getPath_sound_aux:
  shows "getPath t x = Some p \<Longrightarrow> \<exists>n. getNodeByPath t p = Some n \<and> nid n = x"
  and "getPathIn cs k x = Some p \<Longrightarrow>
      \<exists>i q n. p = (k + i) # q \<and> i < length cs \<and> getNodeByPath (cs ! i) q = Some n \<and> nid n = x"
proof (induction t x and cs k x arbitrary: p and p rule: getPath_getPathIn.induct)
  case (1 i n ks x)
  show ?case
  proof (cases "i = x")
    case True with 1 show ?thesis by auto
  next
    case False
    with 1 show ?thesis by fastforce
  qed
next
  case (2 k x)
  then show ?case by simp
next
  case (3 c cs k x)
  show ?case
  proof (cases "getPath c x")
    case None
    with 3(2)[OF None] 3(3) obtain i q n where
      "p = (Suc k + i) # q" "i < length cs" "getNodeByPath (cs ! i) q = Some n" "nid n = x"
      by auto
    then show ?thesis
      by (intro exI[of _ "Suc i"] exI[of _ q] exI[of _ n]) auto
  next
    case (Some a)
    with 3(1)[OF Some] 3(3) show ?thesis
      by (intro exI[of _ 0] exI[of _ a]) auto
  qed
qed

lemma getPath_None_aux:
  shows "getPath t x = None \<longleftrightarrow> x \<notin> set (ids t)"
  and "getPathIn cs k x = None \<longleftrightarrow> x \<notin> set (concat (map ids cs))"
  by (induction t x and cs k x rule: getPath_getPathIn.induct) (auto split: option.splits)

lemma getPath_sound:
  "getPath t x = Some p \<Longrightarrow> \<exists>n. getNodeByPath t p = Some n \<and> nid n = x"
  using getPath_sound_aux(1) by blast

lemma getPath_None: "getPath t x = None \<longleftrightarrow> x \<notin> set (ids t)"
  using getPath_None_aux(1) by blast

lemma nid_in_ids: "nid n \<in> set (ids n)"
  by (cases n) simp

lemma kid_ids_subset: "i < length (kids t) \<Longrightarrow> set (ids (kids t ! i)) \<subseteq> set (ids t)"
  by (cases t) (auto intro!: bexI[of _ "kids t ! i"])

lemma getNodeByPath_ids:
  "getNodeByPath t p = Some n \<Longrightarrow> set (ids n) \<subseteq> set (ids t)"
proof (induction p arbitrary: t)
  case Nil then show ?case by simp
next
  case (Cons i p)
  from Cons.prems have i: "i < length (kids t)" and g: "getNodeByPath (kids t ! i) p = Some n"
    by (auto split: if_splits)
  from Cons.IH[OF g] kid_ids_subset[OF i] show ?case by blast
qed

lemma getNodeByPath_append:
  "getNodeByPath t (p @ q) = (case getNodeByPath t p of None \<Rightarrow> None | Some n \<Rightarrow> getNodeByPath n q)"
  by (induction p arbitrary: t) auto

lemma getNodeByPath_snoc:
  "getNodeByPath t (p @ [k]) =
     (case getNodeByPath t p of None \<Rightarrow> None
      | Some n \<Rightarrow> if k < length (kids n) then Some (kids n ! k) else None)"
  by (simp add: getNodeByPath_append split: option.splits)

lemma getPathIn_nth:
  "i < length cs \<Longrightarrow> \<forall>j<i. x \<notin> set (ids (cs ! j)) \<Longrightarrow> getPath (cs ! i) x = Some q \<Longrightarrow>
   getPathIn cs k x = Some ((k + i) # q)"
proof (induction cs arbitrary: i k)
  case Nil then show ?case by simp
next
  case (Cons c cs)
  show ?case
  proof (cases i)
    case 0
    with Cons.prems show ?thesis by simp
  next
    case (Suc j)
    with Cons.prems have "x \<notin> set (ids c)" by auto
    then have "getPath c x = None" by (simp add: getPath_None)
    moreover have "getPathIn cs (Suc k) x = Some ((Suc k + j) # q)"
      using Cons.prems Suc by (intro Cons.IH) auto
    ultimately show ?thesis using Suc by simp
  qed
qed

lemma distinct_concat_nth_disjoint:
  "distinct (concat xss) \<Longrightarrow> i < j \<Longrightarrow> j < length xss \<Longrightarrow> set (xss ! i) \<inter> set (xss ! j) = {}"
proof (induction xss arbitrary: i j)
  case Nil then show ?case by simp
next
  case (Cons xs xss)
  show ?case
  proof (cases i)
    case 0
    with Cons.prems obtain j' where j': "j = Suc j'" "j' < length xss" by (cases j) auto
    then have "xss ! j' \<in> set xss" by simp
    then have "set (xss ! j') \<subseteq> \<Union> (set ` set xss)" by blast
    moreover from Cons.prems(1) have "set xs \<inter> \<Union> (set ` set xss) = {}" by simp
    ultimately show ?thesis using 0 j' by auto
  next
    case (Suc i')
    with Cons.prems obtain j' where j': "j = Suc j'" "j' < length xss" "i' < j'" by (cases j) auto
    with Cons.IH[of i' j'] Cons.prems(1) Suc show ?thesis by simp
  qed
qed

lemma distinct_kids:
  assumes "distinct (ids t)" "i < length (kids t)"
  shows "distinct (ids (kids t ! i))"
    and "nid t \<notin> set (ids (kids t ! i))"
    and "\<forall>j<length (kids t). j \<noteq> i \<longrightarrow> set (ids (kids t ! j)) \<inter> set (ids (kids t ! i)) = {}"
proof -
  obtain a b ks where t: "t = Node a b ks" by (cases t)
  from assms t have d: "distinct (concat (map ids ks))" and a: "a \<notin> set (concat (map ids ks))"
    and i: "i < length ks" by auto
  from d i show "distinct (ids (kids t ! i))" using t by (auto simp: distinct_concat_iff)
  from a i show "nid t \<notin> set (ids (kids t ! i))" using t by auto
  show "\<forall>j<length (kids t). j \<noteq> i \<longrightarrow> set (ids (kids t ! j)) \<inter> set (ids (kids t ! i)) = {}"
  proof (intro allI impI)
    fix j assume j: "j < length (kids t)" "j \<noteq> i"
    show "set (ids (kids t ! j)) \<inter> set (ids (kids t ! i)) = {}"
    proof (cases "j < i")
      case True
      from distinct_concat_nth_disjoint[OF d True] i show ?thesis using t j by simp
    next
      case False
      with j have "i < j" by simp
      from distinct_concat_nth_disjoint[OF d this] j t have
        "set (ids (ks ! i)) \<inter> set (ids (ks ! j)) = {}" using i by simp
      then show ?thesis using t by auto
    qed
  qed
qed

lemma getPath_unique:
  "distinct (ids t) \<Longrightarrow> getNodeByPath t p = Some n \<Longrightarrow> getPath t (nid n) = Some p"
proof (induction p arbitrary: t)
  case Nil
  then show ?case by (cases t) auto
next
  case (Cons i p)
  from Cons.prems have i: "i < length (kids t)" and g: "getNodeByPath (kids t ! i) p = Some n"
    by (auto split: if_splits)
  note dk = distinct_kids[OF Cons.prems(1) i]
  from Cons.IH[OF dk(1) g] have ih: "getPath (kids t ! i) (nid n) = Some p" .
  have nin: "nid n \<in> set (ids (kids t ! i))" using getNodeByPath_ids[OF g] nid_in_ids by blast
  with dk(2) have ne: "nid t \<noteq> nid n" by auto
  have "\<forall>j<i. nid n \<notin> set (ids (kids t ! j))"
  proof (intro allI impI)
    fix j assume "j < i"
    with dk(3) i have "set (ids (kids t ! j)) \<inter> set (ids (kids t ! i)) = {}" by simp
    with nin show "nid n \<notin> set (ids (kids t ! j))" by blast
  qed
  from getPathIn_nth[OF i this ih, of 0] ne show ?case by (cases t) auto
qed

section \<open>Grouping the selected blocks\<close>

lemma parent_createBefore:
  "parent t b \<noteq> None \<Longrightarrow> \<exists>pos. createBefore t b = Some pos"
  by (auto simp: parent_def createBefore_def split: option.splits if_splits)

lemma parent_createAfter:
  "parent t b \<noteq> None \<Longrightarrow> \<exists>pos. createAfter t b = Some pos"
  by (auto simp: parent_def createAfter_def split: option.splits if_splits)

lemma maximalRuns_Nil_iff [simp]: "maximalRuns t bs = [] \<longleftrightarrow> bs = []"
  by (induction t bs rule: maximalRuns.induct) (auto split: list.splits)

lemma maximalRuns_hd_nonempty:
  "maximalRuns t bs = g # gs \<Longrightarrow> g \<noteq> [] \<and> hd g = hd bs"
  by (induction t bs arbitrary: g gs rule: maximalRuns.induct) (auto split: list.splits if_splits)

lemma concat_maximalRuns: "concat (maximalRuns t bs) = bs"
  by (induction t bs rule: maximalRuns.induct) (auto split: list.splits)

lemma maximalRuns_nonempty: "g \<in> set (maximalRuns t bs) \<Longrightarrow> g \<noteq> []"
  by (induction t bs arbitrary: g rule: maximalRuns.induct) (auto split: list.splits if_splits)

lemma siblingRun_Cons:
  "g \<noteq> [] \<Longrightarrow> siblingRun t (b # g) = (nextSibling t b = Some (hd g) \<and> siblingRun t g)"
  by (cases g) auto

lemma maximalRuns_runs: "g \<in> set (maximalRuns t bs) \<Longrightarrow> siblingRun t g"
proof (induction t bs arbitrary: g rule: maximalRuns.induct)
  case (3 t b c bs)
  show ?case
  proof (cases "nextSibling t b = Some c")
    case True
    obtain g' gs where m: "maximalRuns t (c # bs) = g' # gs"
      by (cases "maximalRuns t (c # bs)") auto
    from maximalRuns_hd_nonempty[OF m] have g': "g' \<noteq> []" "hd g' = c" by auto
    from 3(3) True m have "g = b # g' \<or> g \<in> set gs" by auto
    then show ?thesis
    proof
      assume "g = b # g'"
      moreover have "siblingRun t g'" using 3(1)[OF True, of g'] m by simp
      ultimately show ?thesis using g' True by (simp add: siblingRun_Cons)
    next
      assume "g \<in> set gs"
      then show ?thesis using 3(1)[OF True, of g] m by simp
    qed
  next
    case False
    with 3(3) have "g = [b] \<or> g \<in> set (maximalRuns t (c # bs))" by auto
    then show ?thesis using 3(2)[OF False] by auto
  qed
qed auto

lemma maximalRuns_maximal:
  "Suc i < length (maximalRuns t bs) \<Longrightarrow>
   nextSibling t (last (maximalRuns t bs ! i)) \<noteq> Some (hd (maximalRuns t bs ! Suc i))"
proof (induction t bs arbitrary: i rule: maximalRuns.induct)
  case (3 t b c bs)
  obtain g' gs where m: "maximalRuns t (c # bs) = g' # gs"
    by (cases "maximalRuns t (c # bs)") auto
  from maximalRuns_hd_nonempty[OF m] have g': "g' \<noteq> []" "hd g' = c" by auto
  show ?case
  proof (cases "nextSibling t b = Some c")
    case True
    then have eq: "maximalRuns t (b # c # bs) = (b # g') # gs" using m by simp
    show ?thesis
    proof (cases i)
      case 0
      have "Suc 0 < length (maximalRuns t (c # bs))" using 3(3) eq m 0 by simp
      from 3(1)[OF True this] show ?thesis using eq m 0 g' by simp
    next
      case (Suc j)
      have "Suc i < length (maximalRuns t (c # bs))" using 3(3) eq m by simp
      from 3(1)[OF True this] show ?thesis using eq m Suc by simp
    qed
  next
    case False
    then have eq: "maximalRuns t (b # c # bs) = [b] # g' # gs" using m by simp
    show ?thesis
    proof (cases i)
      case 0
      then show ?thesis using eq False g' by simp
    next
      case (Suc j)
      have "Suc j < length (maximalRuns t (c # bs))" using 3(3) eq m Suc by simp
      from 3(2)[OF False this] show ?thesis using eq m Suc by simp
    qed
  qed
qed auto

lemma length_maximalRuns:
  "bs \<noteq> [] \<Longrightarrow> length (maximalRuns t bs) = Suc (breaks t bs)"
  by (induction t bs rule: maximalRuns.induct) (auto split: list.splits)

lemma breaks_append_run:
  "h \<noteq> [] \<Longrightarrow> siblingRun t h \<Longrightarrow> bs \<noteq> [] \<Longrightarrow> breaks t (h @ bs) \<le> Suc (breaks t bs)"
proof (induction t h rule: siblingRun.induct)
  case (2 t b)
  then show ?case by (cases bs) auto
next
  case (3 t b c cs)
  then show ?case by auto
qed auto

lemma breaks_run: "siblingRun t h \<Longrightarrow> breaks t h = 0"
  by (induction t h rule: siblingRun.induct) auto

lemma runs_cover_breaks:
  "\<forall>h\<in>set hs. h \<noteq> [] \<and> siblingRun t h \<Longrightarrow> hs \<noteq> [] \<Longrightarrow> Suc (breaks t (concat hs)) \<le> length hs"
proof (induction hs)
  case Nil then show ?case by simp
next
  case (Cons h hs)
  show ?case
  proof (cases "hs = []")
    case True
    with Cons.prems show ?thesis by (simp add: breaks_run)
  next
    case False
    with Cons have IH: "Suc (breaks t (concat hs)) \<le> length hs" by simp
    from False Cons.prems have ne: "concat hs \<noteq> []" by (cases hs) auto
    from Cons.prems have "h \<noteq> []" "siblingRun t h" by auto
    from breaks_append_run[OF this ne] IH show ?thesis by simp
  qed
qed

lemma maximalRuns_minimal:
  assumes "concat hs = bs" and "\<forall>h\<in>set hs. h \<noteq> [] \<and> siblingRun t h"
  shows "length (maximalRuns t bs) \<le> length hs"
proof (cases "bs = []")
  case True then show ?thesis by simp
next
  case False
  with assms(1) have "hs \<noteq> []" by auto
  from runs_cover_breaks[OF assms(2) this] assms(1) length_maximalRuns[OF False]
  show ?thesis by simp
qed

lemma rangesLoop_runs:
  "\<forall>b\<in>set blocks. parent t b \<noteq> None \<Longrightarrow> i \<le> length blocks \<Longrightarrow>
    rangesLoop t blocks sp i ranges =
      Some (ranges @
        (case maximalRuns t (drop i blocks) of
           [] \<Rightarrow> []
         | g # gs \<Rightarrow>
             \<lparr>range_start = (case sp of None \<Rightarrow> the (createBefore t (hd g)) | Some p \<Rightarrow> p),
              range_end = the (createAfter t (last g))\<rparr> # map (groupRange t) gs))"
proof (induction t blocks sp i ranges rule: rangesLoop.induct)
  case (1 t blocks startPosition i ranges)
  note assm = "1.prems"(1)
  show ?case
  proof (cases "i < length blocks")
    case False
    with 1 show ?thesis by (subst rangesLoop.simps) simp
  next
    case True
    define block where "block = blocks ! i"
    define nextBlock where "nextBlock = (if Suc i < length blocks then Some (blocks ! Suc i) else None)"
    have bp: "parent t block \<noteq> None" using True assm by (simp add: block_def)
    from parent_createBefore[OF bp] obtain pb where pb: "createBefore t block = Some pb" by blast
    from parent_createAfter[OF bp] obtain pa where pa: "createAfter t block = Some pa" by blast
    define sp where "sp = (case startPosition of None \<Rightarrow> pb | Some p \<Rightarrow> p)"
    have spe: "(case startPosition of None \<Rightarrow> createBefore t block | Some sp \<Rightarrow> Some sp) = Some sp"
      by (simp add: sp_def pb split: option.splits)
    have dr: "drop i blocks = block # drop (Suc i) blocks"
      using True by (simp add: block_def Cons_nth_drop_Suc)
    show ?thesis
    proof (cases "nextBlock = None \<or> nextSibling t block \<noteq> nextBlock")
      case close: True
      have IH: "rangesLoop t blocks None (Suc i) (ranges @ [\<lparr>range_start = sp, range_end = pa\<rparr>]) =
          Some ((ranges @ [\<lparr>range_start = sp, range_end = pa\<rparr>]) @
            (case maximalRuns t (drop (Suc i) blocks) of [] \<Rightarrow> []
             | g # gs \<Rightarrow> \<lparr>range_start = (case None of None \<Rightarrow> the (createBefore t (hd g)) | Some p \<Rightarrow> p),
                range_end = the (createAfter t (last g))\<rparr> # map (groupRange t) gs))"
        using "1.IH"(1)[OF True block_def nextBlock_def spe close pa] True assm by simp
      have mr: "maximalRuns t (drop i blocks) = [block] # maximalRuns t (drop (Suc i) blocks)"
      proof (cases "drop (Suc i) blocks")
        case Nil
        then show ?thesis using dr by simp
      next
        case (Cons c cs)
        then have "Suc i < length blocks" by (cases "Suc i < length blocks") auto
        moreover have "c = blocks ! Suc i" using Cons \<open>Suc i < length blocks\<close>
          by (metis Cons_nth_drop_Suc list.inject)
        ultimately have "nextBlock = Some c" by (simp add: nextBlock_def)
        with close have "nextSibling t block \<noteq> Some c" by simp
        then show ?thesis using dr Cons by simp
      qed
      have "rangesLoop t blocks startPosition i ranges =
          rangesLoop t blocks None (Suc i) (ranges @ [\<lparr>range_start = sp, range_end = pa\<rparr>])"
        using True close spe pa
        by (subst rangesLoop.simps) (simp add: block_def[symmetric] nextBlock_def[symmetric] Let_def)
      also note IH
      finally show ?thesis
        using mr pb pa
        by (auto simp: sp_def groupRange_def split: list.splits option.splits)
    next
      case cont: False
      then obtain c where nb: "nextBlock = Some c" and ns: "nextSibling t block = Some c" by auto
      from nb have si: "Suc i < length blocks" and c: "c = blocks ! Suc i"
        by (auto simp: nextBlock_def split: if_splits)
      have dr2: "drop (Suc i) blocks = c # drop (Suc (Suc i)) blocks"
        using si c by (simp add: Cons_nth_drop_Suc)
      obtain g gs where m: "maximalRuns t (drop (Suc i) blocks) = g # gs"
        using dr2 by (cases "maximalRuns t (drop (Suc i) blocks)") auto
      from maximalRuns_hd_nonempty[OF m] have g: "g \<noteq> []" by simp
      have mr: "maximalRuns t (drop i blocks) = (block # g) # gs"
        using dr dr2 ns m by simp
      have IH: "rangesLoop t blocks (Some sp) (Suc i) ranges =
          Some (ranges @
            (case maximalRuns t (drop (Suc i) blocks) of [] \<Rightarrow> []
             | g # gs \<Rightarrow> \<lparr>range_start = (case Some sp of None \<Rightarrow> the (createBefore t (hd g)) | Some p \<Rightarrow> p),
                range_end = the (createAfter t (last g))\<rparr> # map (groupRange t) gs))"
        using "1.IH"(2)[OF True block_def nextBlock_def spe cont] si assm by simp
      have "rangesLoop t blocks startPosition i ranges = rangesLoop t blocks (Some sp) (Suc i) ranges"
        using True nb ns spe
        by (subst rangesLoop.simps) (simp add: block_def[symmetric] nextBlock_def[symmetric] Let_def)
      also note IH
      finally show ?thesis
        using mr m g pb by (auto simp: sp_def split: option.splits)
    qed
  qed
qed

lemma getRanges_runs:
  assumes "\<forall>b\<in>set blocks. parent t b \<noteq> None"
  shows "getRangesOfBlockGroups t blocks = Some (map (groupRange t) (maximalRuns t blocks))"
  unfolding getRangesOfBlockGroups_def
  using rangesLoop_runs[OF assms, of 0 None "[]"]
  by (auto simp: groupRange_def split: list.splits)

text \<open>
  Claim C1. For every list of selected blocks (each with a parent),
  \<^verbatim>\<open>getRangesOfBlockGroups\<close> returns, in order, the ranges of the maximal runs of
  tree-adjacent siblings of the list: the runs partition the list, each is a chain of
  next siblings, no run can be extended into the next one, and no partition of the list
  into such chains has fewer parts. In particular, for the blocks \<open>[a, b, d, f, g, h]\<close>
  with \<open>a.next = b\<close>, \<open>f.next = g\<close>, \<open>g.next = h\<close> and \<open>d\<close> isolated, it
  returns exactly the three ranges of \<open>[a, b]\<close>, \<open>[d]\<close> and \<open>[f, g, h]\<close>.
\<close>

theorem getRangesOfBlockGroups_maximal_runs:
  assumes "\<forall>b\<in>set blocks. parent t b \<noteq> None"
  shows "getRangesOfBlockGroups t blocks = Some (map (groupRange t) (maximalRuns t blocks))
    \<and> concat (maximalRuns t blocks) = blocks
    \<and> (\<forall>g\<in>set (maximalRuns t blocks). g \<noteq> [] \<and> siblingRun t g)
    \<and> (\<forall>i. Suc i < length (maximalRuns t blocks) \<longrightarrow>
          nextSibling t (last (maximalRuns t blocks ! i)) \<noteq> Some (hd (maximalRuns t blocks ! Suc i)))
    \<and> (\<forall>hs. concat hs = blocks \<and> (\<forall>h\<in>set hs. h \<noteq> [] \<and> siblingRun t h) \<longrightarrow>
          length (maximalRuns t blocks) \<le> length hs)
    \<and> (\<forall>a b d f g h.
          blocks = [a, b, d, f, g, h] \<and> nextSibling t a = Some b \<and> nextSibling t b \<noteq> Some d
          \<and> nextSibling t d \<noteq> Some f \<and> nextSibling t f = Some g \<and> nextSibling t g = Some h \<longrightarrow>
          getRangesOfBlockGroups t blocks =
            Some [groupRange t [a, b], groupRange t [d], groupRange t [f, g, h]])"
proof -
  have eq: "getRangesOfBlockGroups t blocks = Some (map (groupRange t) (maximalRuns t blocks))"
    by (rule getRanges_runs[OF assms])
  have runs: "\<forall>g\<in>set (maximalRuns t blocks). g \<noteq> [] \<and> siblingRun t g"
    using maximalRuns_nonempty maximalRuns_runs by blast
  have maxi: "\<forall>i. Suc i < length (maximalRuns t blocks) \<longrightarrow>
      nextSibling t (last (maximalRuns t blocks ! i)) \<noteq> Some (hd (maximalRuns t blocks ! Suc i))"
    using maximalRuns_maximal by blast
  have mini: "\<forall>hs. concat hs = blocks \<and> (\<forall>h\<in>set hs. h \<noteq> [] \<and> siblingRun t h) \<longrightarrow>
      length (maximalRuns t blocks) \<le> length hs"
    using maximalRuns_minimal by blast
  have inst: "\<forall>a b d f g h.
      blocks = [a, b, d, f, g, h] \<and> nextSibling t a = Some b \<and> nextSibling t b \<noteq> Some d
      \<and> nextSibling t d \<noteq> Some f \<and> nextSibling t f = Some g \<and> nextSibling t g = Some h \<longrightarrow>
      getRangesOfBlockGroups t blocks =
        Some [groupRange t [a, b], groupRange t [d], groupRange t [f, g, h]]"
  proof (intro allI impI)
    fix a b d f g h
    assume h: "blocks = [a, b, d, f, g, h] \<and> nextSibling t a = Some b \<and> nextSibling t b \<noteq> Some d
      \<and> nextSibling t d \<noteq> Some f \<and> nextSibling t f = Some g \<and> nextSibling t g = Some h"
    then have "maximalRuns t blocks = [[a, b], [d], [f, g, h]]" by simp
    with eq show "getRangesOfBlockGroups t blocks =
        Some [groupRange t [a, b], groupRange t [d], groupRange t [f, g, h]]" by simp
  qed
  from eq concat_maximalRuns[of t blocks] runs maxi mini inst show ?thesis by blast
qed

lemma contentDoc_paths:
  "getPath contentDoc (Suc 0) = Some [0]" "getPath contentDoc 2 = Some [1]"
  "getPath contentDoc 3 = Some [2]" "getPath contentDoc 4 = Some [3]"
  "getPath contentDoc 5 = Some [4]" "getPath contentDoc 6 = Some [5]"
  "getPath contentDoc 7 = Some [6]" "getPath contentDoc 8 = Some [7]"
  by (simp_all add: contentDoc_def paragraphNode_def)

theorem getRangesOfBlockGroups_content_example:
  "list_all (\<lambda>b. parent contentDoc b \<noteq> None) [1, 2, 4, 6, 7, 8]
   \<and> nextSibling contentDoc 1 = Some 2 \<and> nextSibling contentDoc 2 \<noteq> Some 4
   \<and> nextSibling contentDoc 4 \<noteq> Some 6 \<and> nextSibling contentDoc 6 = Some 7
   \<and> nextSibling contentDoc 7 = Some 8
   \<and> getRangesOfBlockGroups contentDoc [1, 2, 4, 6, 7, 8] =
       Some [\<lparr>range_start = \<lparr>parentPath = [], offset = 0\<rparr>,
               range_end = \<lparr>parentPath = [], offset = 2\<rparr>\<rparr>,
             \<lparr>range_start = \<lparr>parentPath = [], offset = 3\<rparr>,
               range_end = \<lparr>parentPath = [], offset = 4\<rparr>\<rparr>,
             \<lparr>range_start = \<lparr>parentPath = [], offset = 5\<rparr>,
               range_end = \<lparr>parentPath = [], offset = 8\<rparr>\<rparr>]"
proof -
  have par: "\<forall>b\<in>set [1, 2, 4, 6, 7, 8]. parent contentDoc b \<noteq> None"
    by (simp add: parent_def contentDoc_paths)
  have sib: "nextSibling contentDoc 1 = Some 2" "nextSibling contentDoc 2 \<noteq> Some 4"
    "nextSibling contentDoc 4 \<noteq> Some 6" "nextSibling contentDoc 6 = Some 7"
    "nextSibling contentDoc 7 = Some 8"
    by (simp_all add: nextSibling_def parent_def contentDoc_paths)
       (simp_all add: contentDoc_def paragraphNode_def)
  have rng: "groupRange contentDoc [1, 2] =
      \<lparr>range_start = \<lparr>parentPath = [], offset = 0\<rparr>, range_end = \<lparr>parentPath = [], offset = 2\<rparr>\<rparr>"
    "groupRange contentDoc [4] =
      \<lparr>range_start = \<lparr>parentPath = [], offset = 3\<rparr>, range_end = \<lparr>parentPath = [], offset = 4\<rparr>\<rparr>"
    "groupRange contentDoc [6, 7, 8] =
      \<lparr>range_start = \<lparr>parentPath = [], offset = 5\<rparr>, range_end = \<lparr>parentPath = [], offset = 8\<rparr>\<rparr>"
    by (simp_all add: groupRange_def createBefore_def createAfter_def contentDoc_paths)
  from getRangesOfBlockGroups_maximal_runs[OF par] sib
  have "getRangesOfBlockGroups contentDoc [1, 2, 4, 6, 7, 8] =
      Some [groupRange contentDoc [1, 2], groupRange contentDoc [4], groupRange contentDoc [6, 7, 8]]"
    by blast
  with par sib rng show ?thesis by (simp add: list_all_iff)
qed

section \<open>The schema guard and the command state\<close>

lemma namesAlong_last:
  "getNodeByPath t q = Some n \<Longrightarrow> namesAlong t q \<noteq> [] \<and> last (namesAlong t q) = nname n"
  by (induction q arbitrary: t) (auto split: if_splits)

lemma suffix_joinNames: "ns \<noteq> [] \<Longrightarrow> suffix (last ns) (joinNames ns)"
proof (induction ns rule: joinNames.induct)
  case (3 n m ns)
  then have "suffix (last (m # ns)) (joinNames (m # ns))" by simp
  then have "suffix (last (m # ns)) (n @ '' '' @ joinNames (m # ns))"
    by (metis suffix_appendI)
  then show ?case by simp
qed auto

lemma parentD:
  "parent t b = Some par \<Longrightarrow>
   \<exists>p. getPath t b = Some p \<and> p \<noteq> [] \<and> getNodeByPath t (butlast p) = Some par"
  by (auto simp: parent_def split: option.splits if_splits)

lemma nameOf_total: "getPath t b = Some p \<Longrightarrow> \<exists>name. nameOf t b = Some name"
  using getPath_sound[of t b p] by (auto simp: nameOf_def)

lemma contextOf_total:
  "getNodeByPath t q = Some n \<Longrightarrow> \<exists>ctx. contextOf t (nid n) = Some ctx"
proof -
  assume g: "getNodeByPath t q = Some n"
  have "nid n \<in> set (ids t)" using getNodeByPath_ids[OF g] nid_in_ids by blast
  then obtain p where "getPath t (nid n) = Some p" using getPath_None[of t "nid n"] by auto
  then show ?thesis by (simp add: contextOf_def)
qed

lemma checkCanBeBlocked_total:
  assumes "parent t b \<noteq> None"
  shows "\<exists>r. checkCanBeBlocked hostCheck t b = Some r"
proof -
  from assms obtain par where par: "parent t b = Some par" by auto
  from parentD[OF par] obtain p where p: "getPath t b = Some p" "getNodeByPath t (butlast p) = Some par"
    by auto
  from contextOf_total[OF p(2)] obtain ctx where "contextOf t (nid par) = Some ctx" by auto
  moreover from nameOf_total[OF p(1)] obtain name where "nameOf t b = Some name" by auto
  ultimately show ?thesis using par by (simp add: checkCanBeBlocked_def Let_def)
qed

text \<open>
  Claim C8. For every block whose parent is a container, so that wrapping it would place a
  container as a child of a container, \<^verbatim>\<open>checkCanBeBlocked\<close> returns false. The
  predicate is a function of the schema, the tree and the block that returns a truth value
  only: it has no access to a writer and gives back no tree, so it cannot change the
  document.
\<close>

theorem checkCanBeBlocked_rejects_nesting:
  assumes "distinct (ids t)" and "parent t block = Some par" and "nname par = ''codeBlock''"
  shows "checkCanBeBlocked hostCheck t block = Some False"
proof -
  from parentD[OF assms(2)] obtain p where
    p: "getPath t block = Some p" "p \<noteq> []" "getNodeByPath t (butlast p) = Some par" by auto
  from getPath_unique[OF assms(1) p(3)] have ctx: "contextOf t (nid par) = Some (namesAlong t (butlast p))"
    by (simp add: contextOf_def)
  from namesAlong_last[OF p(3)] assms(3) suffix_joinNames[of "namesAlong t (butlast p)"]
  have "endsWith (namesAlong t (butlast p)) ''codeBlock''"
    by (simp add: endsWith_def)
  then have "checkChild hostCheck (namesAlong t (butlast p)) ''codeBlock'' = False"
    by (simp add: checkChild_def)
  moreover from nameOf_total[OF p(1)] obtain name where "nameOf t block = Some name" by auto
  ultimately show ?thesis using assms(2) ctx by (simp add: checkCanBeBlocked_def Let_def)
qed

theorem checkCanBeBlocked_rejects_nesting_example:
  "distinct (ids mixedDoc)
   \<and> parent mixedDoc 1 = Some (Node 9 ''codeBlock'' [paragraphNode 1, paragraphNode 2, paragraphNode 3])
   \<and> checkCanBeBlocked permissiveSchema mixedDoc 1 = Some False"
proof -
  have d: "distinct (ids mixedDoc)" by (simp add: mixedDoc_def paragraphNode_def)
  have p: "parent mixedDoc 1 = Some (Node 9 ''codeBlock'' [paragraphNode 1, paragraphNode 2, paragraphNode 3])"
    by (simp add: parent_def mixedDoc_def paragraphNode_def)
  from checkCanBeBlocked_rejects_nesting[OF d p, of permissiveSchema] d p show ?thesis by simp
qed

text \<open>
  Claim C7. \<^verbatim>\<open>refresh\<close> sets \<^verbatim>\<open>value\<close> to true iff there is a first selected block
  and its immediate parent is a container; it sets \<^verbatim>\<open>isEnabled\<close> to true if
  \<^verbatim>\<open>value\<close> is true, and otherwise to true iff there is a first selected block and
  \<^verbatim>\<open>checkCanBeBlocked\<close> accepts it. The document, the selection and the schema are
  left as they are.
\<close>

theorem refresh_value_isEnabled:
  assumes "\<forall>b. first (selectedBlocks ed) = Some b \<longrightarrow> parent (document ed) b \<noteq> None"
  shows "\<exists>ed'. refresh ed = Some ed'
     \<and> document ed' = document ed \<and> selectedBlocks ed' = selectedBlocks ed \<and> schema ed' = schema ed
     \<and> (value ed' \<longleftrightarrow>
          (\<exists>b par. first (selectedBlocks ed) = Some b \<and> parent (document ed) b = Some par
                   \<and> nname par = ''codeBlock''))
     \<and> (isEnabled ed' \<longleftrightarrow>
          (if value ed' then True
           else (\<exists>b. first (selectedBlocks ed) = Some b
                    \<and> checkCanBeBlocked (schema ed) (document ed) b = Some True)))"
proof (cases "first (selectedBlocks ed)")
  case None
  then show ?thesis
    by (simp add: refresh_def getValue_def checkEnabled_def Let_def)
next
  case (Some b)
  with assms obtain par where par: "parent (document ed) b = Some par" by auto
  from checkCanBeBlocked_total[of "document ed" b "schema ed"] par
  obtain r where r: "checkCanBeBlocked (schema ed) (document ed) b = Some r" by auto
  show ?thesis
    using Some par r
    by (simp add: refresh_def getValue_def checkEnabled_def Let_def isBlocked_def findBlock_def
        parentOf_def)
qed

theorem refresh_value_isEnabled_example:
  "first (selectedBlocks mixedEditor) = Some 5 \<and> parent (document mixedEditor) 5 = Some mixedDoc
   \<and> (\<exists>ed'. refresh mixedEditor = Some ed' \<and> \<not> value ed' \<and> isEnabled ed')"
proof -
  have h: "\<forall>b. first (selectedBlocks mixedEditor) = Some b \<longrightarrow> parent (document mixedEditor) b \<noteq> None"
    by (simp add: mixedEditor_def first_def parent_def mixedDoc_def paragraphNode_def)
  have p: "parent mixedDoc 5 = Some mixedDoc"
    by (simp add: parent_def mixedDoc_def paragraphNode_def)
  have c: "checkCanBeBlocked permissiveSchema mixedDoc 5 = Some True"
    by (simp add: checkCanBeBlocked_def p contextOf_def nameOf_def checkChild_def endsWith_def
        permissiveSchema_def Let_def suffix_to_prefix)
       (simp add: mixedDoc_def paragraphNode_def suffix_to_prefix permissiveSchema_def)
  from refresh_value_isEnabled[OF h] obtain ed' where
    ed': "refresh mixedEditor = Some ed'"
      "value ed' \<longleftrightarrow> (\<exists>b par. first (selectedBlocks mixedEditor) = Some b
          \<and> parent (document mixedEditor) b = Some par \<and> nname par = ''codeBlock'')"
      "isEnabled ed' \<longleftrightarrow> (if value ed' then True
           else (\<exists>b. first (selectedBlocks mixedEditor) = Some b
                    \<and> checkCanBeBlocked (schema mixedEditor) (document mixedEditor) b = Some True))"
    by blast
  from ed'(2) p have v: "\<not> value ed'"
    by (simp add: mixedEditor_def first_def) (simp add: mixedDoc_def)
  from ed'(3) v c have "isEnabled ed'" by (simp add: mixedEditor_def first_def)
  moreover have "first (selectedBlocks mixedEditor) = Some 5" by (simp add: mixedEditor_def first_def)
  moreover have "parent (document mixedEditor) 5 = Some mixedDoc" using p by (simp add: mixedEditor_def)
  ultimately show ?thesis using ed'(1) v by blast
qed

lemma filterBlocks_total:
  "\<forall>b\<in>set bs. \<exists>r. f b = Some r \<Longrightarrow> filterBlocks f bs = Some (filter (\<lambda>b. f b = Some True) bs)"
  by (induction bs) auto

lemma canBlock_eq:
  assumes "parent t b \<noteq> None"
  shows "\<exists>r. canBlock hostCheck t b = Some r"
    and "canBlock hostCheck t b = Some True \<longleftrightarrow>
          isBlocked t b = Some True \<or> checkCanBeBlocked hostCheck t b = Some True"
proof -
  from assms obtain par where par: "parent t b = Some par" by auto
  from checkCanBeBlocked_total[OF assms, of hostCheck]
  obtain r where r: "checkCanBeBlocked hostCheck t b = Some r" by auto
  show "\<exists>r. canBlock hostCheck t b = Some r"
    using par r by (auto simp: canBlock_def findBlock_def parentOf_def)
  show "canBlock hostCheck t b = Some True \<longleftrightarrow>
          isBlocked t b = Some True \<or> checkCanBeBlocked hostCheck t b = Some True"
    using par r by (simp add: canBlock_def isBlocked_def findBlock_def parentOf_def)
qed

text \<open>
  Claim C9, as amended. The filter of the Wrap path never throws for blocks that have a
  parent; it keeps, in their order, exactly the selected blocks that are already a direct
  child of a container or that \<^verbatim>\<open>checkCanBeBlocked\<close> accepts. So a block that the
  guard rejects is silently excluded unless it already sits in a container.
\<close>

theorem blocksToBlock_keeps_blocked_or_blockable:
  assumes "\<forall>b\<in>set (selectedBlocks ed). parent (document ed) b \<noteq> None"
  shows "blocksToBlock ed =
     Some (filter (\<lambda>b. isBlocked (document ed) b = Some True
                      \<or> checkCanBeBlocked (schema ed) (document ed) b = Some True)
            (selectedBlocks ed))"
proof -
  have "filterBlocks (canBlock (schema ed) (document ed)) (selectedBlocks ed) =
      Some (filter (\<lambda>b. canBlock (schema ed) (document ed) b = Some True) (selectedBlocks ed))"
    using assms canBlock_eq(1) by (intro filterBlocks_total) auto
  moreover have "filter (\<lambda>b. canBlock (schema ed) (document ed) b = Some True) (selectedBlocks ed) =
     filter (\<lambda>b. isBlocked (document ed) b = Some True
                      \<or> checkCanBeBlocked (schema ed) (document ed) b = Some True) (selectedBlocks ed)"
    using assms canBlock_eq(2) by (intro filter_cong) auto
  ultimately show ?thesis by (simp add: blocksToBlock_def)
qed

theorem blocksToBlock_keeps_blocked_or_blockable_example:
  "list_all (\<lambda>b. parent (document mixedEditor) b \<noteq> None) (selectedBlocks mixedEditor)
   \<and> blocksToBlock mixedEditor =
       Some (filter (\<lambda>b. isBlocked (document mixedEditor) b = Some True
                        \<or> checkCanBeBlocked (schema mixedEditor) (document mixedEditor) b = Some True)
              (selectedBlocks mixedEditor))"
proof -
  have h: "\<forall>b\<in>set (selectedBlocks mixedEditor). parent (document mixedEditor) b \<noteq> None"
    by (simp add: mixedEditor_def parent_def mixedDoc_def paragraphNode_def)
  from blocksToBlock_keeps_blocked_or_blockable[OF h] h show ?thesis by (simp add: list_all_iff)
qed

text \<open>
  Claim C9, as stated, fails: in a root holding paragraph 5 and a code block with the
  paragraphs 1, 2 and 3, with 5, 1 and 3 selected, \<^verbatim>\<open>checkCanBeBlocked\<close> rejects
  block 1 (its parent is a code block) and yet the filter keeps it.
\<close>

theorem blocksToBlock_keeps_rejected_block:
  "checkCanBeBlocked (schema mixedEditor) (document mixedEditor) 1 = Some False
   \<and> blocksToBlock mixedEditor = Some [5, 1, 3]"
  by (simp add: mixedEditor_def mixedDoc_def paragraphNode_def permissiveSchema_def blocksToBlock_def
      canBlock_def checkCanBeBlocked_def findBlock_def parentOf_def parent_def contextOf_def
      nameOf_def checkChild_def endsWith_def Let_def suffix_to_prefix)

section \<open>Replacing the children of an element\<close>

lemma updateKids_Some:
  "getNodeByPath t p = Some n \<Longrightarrow> \<exists>t'. updateKids p f t = Some t'"
proof (induction p arbitrary: t)
  case Nil then show ?case by simp
next
  case (Cons k p)
  then show ?case by (auto split: if_splits option.splits)
qed

lemma updateKids_None:
  "getNodeByPath t p = None \<Longrightarrow> updateKids p f t = None"
  by (induction p arbitrary: t) (auto split: if_splits option.splits)

lemma updateKids_get:
  "updateKids p f t = Some t' \<Longrightarrow> getNodeByPath t p = Some n \<Longrightarrow>
   getNodeByPath t' p = Some (Node (nid n) (nname n) (f (kids n)))"
  by (induction p arbitrary: t t') (auto split: if_splits option.splits)

lemma updateKids_comp:
  "updateKids p f t = Some t1 \<Longrightarrow> updateKids p g t1 = updateKids p (g \<circ> f) t"
  by (induction p arbitrary: t t1) (auto split: if_splits option.splits)

lemma updateKids_cong:
  "getNodeByPath t p = Some n \<Longrightarrow> f (kids n) = g (kids n) \<Longrightarrow> updateKids p f t = updateKids p g t"
  by (induction p arbitrary: t) (auto split: if_splits option.splits)

lemma updateKids_snoc:
  "getNodeByPath t p = Some n \<Longrightarrow> k < length (kids n) \<Longrightarrow>
   updateKids (p @ [k]) g t =
   updateKids p (\<lambda>ks. ks[k := Node (nid (ks ! k)) (nname (ks ! k)) (g (kids (ks ! k)))]) t"
  by (induction p arbitrary: t) (auto split: if_splits option.splits)

lemma updateKids_root_label:
  "updateKids p f t = Some t' \<Longrightarrow> nid t' = nid t \<and> nname t' = nname t \<and> length (kids t') = (if p = [] then length (f (kids t)) else length (kids t))"
  by (cases p) (auto split: if_splits option.splits)

lemma mset_ids_list_update:
  "k < length ks \<Longrightarrow>
   mset (concat (map ids (ks[k := c]))) + mset (ids (ks ! k)) = mset (concat (map ids ks)) + mset (ids c)"
proof (induction ks arbitrary: k)
  case Nil then show ?case by simp
next
  case (Cons a ks)
  show ?case
  proof (cases k)
    case 0 then show ?thesis by simp
  next
    case (Suc j)
    with Cons.prems have "j < length ks" by simp
    from Cons.IH[OF this] Suc show ?thesis by (simp add: ac_simps)
  qed
qed

lemma mset_ids_updateKids:
  "getNodeByPath t p = Some n \<Longrightarrow> updateKids p f t = Some t' \<Longrightarrow>
   mset (ids t') + mset (concat (map ids (kids n))) = mset (ids t) + mset (concat (map ids (f (kids n))))"
proof (induction p arbitrary: t t')
  case Nil
  then show ?case by (cases t) auto
next
  case (Cons k p)
  from Cons.prems obtain c where k: "k < length (kids t)"
    and g: "getNodeByPath (kids t ! k) p = Some n"
    and u: "updateKids p f (kids t ! k) = Some c"
    and t': "t' = Node (nid t) (nname t) ((kids t)[k := c])"
    by (auto split: if_splits option.splits)
  from Cons.IH[OF g u] have ih:
    "mset (ids c) + mset (concat (map ids (kids n))) = mset (ids (kids t ! k)) + mset (concat (map ids (f (kids n))))" .
  from mset_ids_list_update[OF k, of c] have lu:
    "mset (concat (map ids ((kids t)[k := c]))) + mset (ids (kids t ! k)) = mset (concat (map ids (kids t))) + mset (ids c)" .
  have "mset (ids t') + mset (concat (map ids (kids n))) + mset (ids (kids t ! k))
      = {#nid t#} + (mset (concat (map ids ((kids t)[k := c]))) + mset (ids (kids t ! k))) + mset (concat (map ids (kids n)))"
    using t' by (simp add: ac_simps)
  also have "\<dots> = {#nid t#} + mset (concat (map ids (kids t))) + (mset (ids c) + mset (concat (map ids (kids n))))"
    using lu by (simp add: ac_simps)
  also have "\<dots> = {#nid t#} + mset (concat (map ids (kids t))) + (mset (ids (kids t ! k)) + mset (concat (map ids (f (kids n)))))"
    using ih by simp
  also have "\<dots> = mset (ids t) + mset (concat (map ids (f (kids n)))) + mset (ids (kids t ! k))"
    by (cases t) (simp add: ac_simps)
  finally show ?case by simp
qed

lemma newElement_fresh: "nid (newElement t name) \<notin> set (ids t)"
proof
  assume "nid (newElement t name) \<in> set (ids t)"
  then have "nid (newElement t name) \<le> Max (set (ids t))" by simp
  then show False by (simp add: newElement_def)
qed

lemma newElement_sel [simp]:
  "nname (newElement t name) = name" "kids (newElement t name) = []"
  by (simp_all add: newElement_def)

lemma mkRange_sel [simp]:
  "range_start (mkRange p s e) = \<lparr>parentPath = p, offset = s\<rparr>"
  "range_end (mkRange p s e) = \<lparr>parentPath = p, offset = e\<rparr>"
  "isFlat (mkRange p s e)"
  by (simp_all add: mkRange_def isFlat_def)

lemma snoc_facts [simp]: "q @ [k] \<noteq> q" "\<not> strict_prefix (q @ [k]) q" "\<not> prefix (q @ [k]) q"
  by (auto simp: strict_prefix_def prefix_def)

lemma getNodeByPath_snocD:
  "getNodeByPath t (q @ [k]) = Some c \<Longrightarrow>
   \<exists>par. getNodeByPath t q = Some par \<and> k < length (kids par) \<and> kids par ! k = c"
  by (auto simp: getNodeByPath_snoc split: option.splits if_splits)

lemma node_eta [simp]: "Node (nid n) (nname n) (kids n) = n"
  by (cases n) simp

lemma move_out:
  assumes c: "getNodeByPath t (q @ [k]) = Some c"
    and se: "s \<le> e" "e \<le> length (kids c)"
    and o: "off = k \<or> off = Suc k"
  shows "move t (mkRange (q @ [k]) s e) \<lparr>parentPath = q, offset = off\<rparr> =
     updateKids q (\<lambda>ks. take off (ks[k := Node (nid c) (nname c) (take s (kids c) @ drop e (kids c))])
                         @ take (e - s) (drop s (kids c))
                         @ drop off (ks[k := Node (nid c) (nname c) (take s (kids c) @ drop e (kids c))])) t"
proof -
  from getNodeByPath_snocD[OF c] obtain par where
    par: "getNodeByPath t q = Some par" "k < length (kids par)" "kids par ! k = c" by auto
  let ?f = "\<lambda>ks. ks[k := Node (nid (ks ! k)) (nname (ks ! k)) (take s (kids (ks ! k)) @ drop e (kids (ks ! k)))]"
  let ?c' = "Node (nid c) (nname c) (take s (kids c) @ drop e (kids c))"
  let ?g = "\<lambda>ks. take off ks @ take (e - s) (drop s (kids c)) @ drop off ks"
  have u1: "updateKids (q @ [k]) (\<lambda>ks. take s ks @ drop e ks) t = updateKids q ?f t"
    by (rule updateKids_snoc[OF par(1,2)])
  from updateKids_Some[OF par(1), of ?f] obtain t1 where t1: "updateKids q ?f t = Some t1" by auto
  from updateKids_get[OF t1 par(1)] have p1: "getNodeByPath t1 q = Some (Node (nid par) (nname par) (?f (kids par)))" .
  have tr: "getTransformedByDeletion \<lparr>parentPath = q, offset = off\<rparr> \<lparr>parentPath = q @ [k], offset = s\<rparr> (e - s)
      = Some \<lparr>parentPath = q, offset = off\<rparr>"
    by (simp add: getTransformedByDeletion_def Let_def)
  have ol: "off \<le> length (kids par)" using o par(2) by auto
  have "move t (mkRange (q @ [k]) s e) \<lparr>parentPath = q, offset = off\<rparr> = updateKids q ?g t1"
    using c par se u1 t1 tr p1 ol
    by (simp add: move_def position_parent_def Let_def mkRange_def isFlat_def)
  also have "\<dots> = updateKids q (?g \<circ> ?f) t" by (rule updateKids_comp[OF t1])
  also have "\<dots> = updateKids q (\<lambda>ks. take off (ks[k := ?c']) @ take (e - s) (drop s (kids c)) @ drop off (ks[k := ?c'])) t"
    by (rule updateKids_cong[OF par(1)]) (simp add: par)
  finally show ?thesis .
qed

lemma drop_update_same: "k < length ks \<Longrightarrow> drop k (ks[k := x]) = x # drop (Suc k) ks"
  by (simp add: upd_conv_take_nth_drop)

lemma take_Suc_update_same: "k < length ks \<Longrightarrow> take (Suc k) (ks[k := x]) = take k ks @ [x]"
  by (simp add: upd_conv_take_nth_drop)

lemma removeBlockGroup_full:
  assumes d: "distinct (ids t)" and c: "getNodeByPath t (q @ [k]) = Some c"
  shows "removeBlockGroup t (mkRange (q @ [k]) 0 (length (kids c))) =
     updateKids q (\<lambda>ks. take k ks @ kids c @ drop (Suc k) ks) t"
proof -
  from getPath_unique[OF d c] have gp: "getPath t (nid c) = Some (q @ [k])" .
  show ?thesis
    using c gp
    by (simp add: removeBlockGroup_def isAtStart_def isAtEnd_def position_parent_def unwrap_def)
qed

lemma removeBlockGroup_prefix:
  assumes d: "distinct (ids t)" and c: "getNodeByPath t (q @ [k]) = Some c"
    and e: "e < length (kids c)"
  shows "removeBlockGroup t (mkRange (q @ [k]) 0 e) =
     updateKids q (\<lambda>ks. take k ks @ take e (kids c)
                          @ [Node (nid c) (nname c) (drop e (kids c))] @ drop (Suc k) ks) t"
proof -
  from getNodeByPath_snocD[OF c] obtain par where
    par: "getNodeByPath t q = Some par" "k < length (kids par)" "kids par ! k = c" by auto
  from getPath_unique[OF d c] have gp: "getPath t (nid c) = Some (q @ [k])" .
  have "removeBlockGroup t (mkRange (q @ [k]) 0 e) = move t (mkRange (q @ [k]) 0 e) \<lparr>parentPath = q, offset = k\<rparr>"
    using c gp e
    by (simp add: removeBlockGroup_def isAtStart_def isAtEnd_def position_parent_def createBefore_def)
  also have "\<dots> = updateKids q (\<lambda>ks. take k (ks[k := Node (nid c) (nname c) (take 0 (kids c) @ drop e (kids c))])
                         @ take (e - 0) (drop 0 (kids c))
                         @ drop k (ks[k := Node (nid c) (nname c) (take 0 (kids c) @ drop e (kids c))])) t"
    using e by (intro move_out[OF c]) auto
  also have "\<dots> = updateKids q (\<lambda>ks. take k ks @ take e (kids c)
                          @ [Node (nid c) (nname c) (drop e (kids c))] @ drop (Suc k) ks) t"
    by (rule updateKids_cong[OF par(1)]) (simp add: drop_update_same[OF par(2)])
  finally show ?thesis .
qed

lemma removeBlockGroup_suffix:
  assumes d: "distinct (ids t)" and c: "getNodeByPath t (q @ [k]) = Some c"
    and s: "0 < s" "s \<le> length (kids c)"
  shows "removeBlockGroup t (mkRange (q @ [k]) s (length (kids c))) =
     updateKids q (\<lambda>ks. take k ks @ [Node (nid c) (nname c) (take s (kids c))]
                          @ drop s (kids c) @ drop (Suc k) ks) t"
proof -
  from getNodeByPath_snocD[OF c] obtain par where
    par: "getNodeByPath t q = Some par" "k < length (kids par)" "kids par ! k = c" by auto
  from getPath_unique[OF d c] have gp: "getPath t (nid c) = Some (q @ [k])" .
  have "removeBlockGroup t (mkRange (q @ [k]) s (length (kids c))) =
      move t (mkRange (q @ [k]) s (length (kids c))) \<lparr>parentPath = q, offset = Suc k\<rparr>"
    using c gp s
    by (simp add: removeBlockGroup_def isAtStart_def isAtEnd_def position_parent_def createAfter_def)
  also have "\<dots> = updateKids q (\<lambda>ks. take (Suc k) (ks[k := Node (nid c) (nname c) (take s (kids c) @ drop (length (kids c)) (kids c))])
                         @ take (length (kids c) - s) (drop s (kids c))
                         @ drop (Suc k) (ks[k := Node (nid c) (nname c) (take s (kids c) @ drop (length (kids c)) (kids c))])) t"
    using s by (intro move_out[OF c]) auto
  also have "\<dots> = updateKids q (\<lambda>ks. take k ks @ [Node (nid c) (nname c) (take s (kids c))]
                          @ drop s (kids c) @ drop (Suc k) ks) t"
    by (rule updateKids_cong[OF par(1)]) (simp add: take_Suc_update_same[OF par(2)])
  finally show ?thesis .
qed

lemma mset_ids_kids_split:
  "mset (concat (map ids (take e cs))) + mset (concat (map ids (drop e cs))) = mset (concat (map ids cs))"
proof -
  have "concat (map ids cs) = concat (map ids (take e cs @ drop e cs))" by simp
  also have "\<dots> = concat (map ids (take e cs)) @ concat (map ids (drop e cs))"
    by (simp only: map_append concat_append)
  finally show ?thesis by simp
qed

lemma kids_decomp: "k < length ps \<Longrightarrow> ps = take k ps @ (ps ! k) # drop (Suc k) ps"
  by (rule id_take_nth_drop)

lemma mset_ids_replace_kid:
  assumes "k < length ps"
  shows "mset (concat (map ids (take k ps @ xs @ drop (Suc k) ps))) + mset (ids (ps ! k)) =
         mset (concat (map ids ps)) + mset (concat (map ids xs))"
proof -
  have "mset (concat (map ids ps)) =
      mset (concat (map ids (take k ps @ (ps ! k) # drop (Suc k) ps)))"
    using kids_decomp[OF assms] by simp
  then show ?thesis by simp
qed

lemma distinct_mset_eq: "mset xs = mset ys \<Longrightarrow> distinct ys \<Longrightarrow> distinct xs"
  using mset_eq_imp_distinct_iff by blast

lemma split_eq:
  assumes c: "getNodeByPath t (q @ [k]) = Some c" and e: "e \<le> length (kids c)"
  shows "split t \<lparr>parentPath = q @ [k], offset = e\<rparr> =
     updateKids q (\<lambda>ks. take k ks
                        @ [Node (nid c) (nname c) (take e (kids c)),
                           Node (nid (newElement t (nname c))) (nname c) (drop e (kids c))]
                        @ drop (Suc k) ks) t"
  using c e by (simp add: split_def position_parent_def Let_def)

lemma split_distinct:
  assumes d: "distinct (ids t)" and c: "getNodeByPath t (q @ [k]) = Some c"
    and e: "e \<le> length (kids c)"
    and t1: "split t \<lparr>parentPath = q @ [k], offset = e\<rparr> = Some t1"
  shows "mset (ids t1) = mset (ids t) + {#nid (newElement t (nname c))#}"
    and "distinct (ids t1)"
    and "getNodeByPath t1 (q @ [k]) = Some (Node (nid c) (nname c) (take e (kids c)))"
proof -
  from getNodeByPath_snocD[OF c] obtain par where
    par: "getNodeByPath t q = Some par" "k < length (kids par)" "kids par ! k = c" by auto
  let ?new = "nid (newElement t (nname c))"
  let ?xs = "[Node (nid c) (nname c) (take e (kids c)), Node ?new (nname c) (drop e (kids c))]"
  let ?F = "\<lambda>ks. take k ks @ ?xs @ drop (Suc k) ks"
  from t1 split_eq[OF c e] have u: "updateKids q ?F t = Some t1" by simp
  define M1 where "M1 = mset (ids t1)"
  define K where "K = mset (concat (map ids (kids par)))"
  define T where "T = mset (ids t)"
  define FK where "FK = mset (concat (map ids (?F (kids par))))"
  define C where "C = mset (ids c)"
  define X where "X = mset (concat (map ids ?xs))"
  define N where "N = {#?new#}"
  have 1: "M1 + K = T + FK"
    unfolding M1_def K_def T_def FK_def by (rule mset_ids_updateKids[OF par(1) u])
  have 2: "FK + C = K + X"
    unfolding FK_def C_def K_def X_def using mset_ids_replace_kid[OF par(2), of ?xs] par(3) by simp
  have 3: "X = C + N"
    unfolding X_def C_def N_def using mset_ids_kids_split[of e "kids c"] by (cases c) (simp add: ac_simps)
  have "M1 + (K + C) = (M1 + K) + C" by (simp add: ac_simps)
  also have "\<dots> = T + (FK + C)" using 1 by (simp add: ac_simps)
  also have "\<dots> = T + (K + (C + N))" using 2 3 by simp
  also have "\<dots> = (T + N) + (K + C)" by (simp add: ac_simps)
  finally have "M1 = T + N" by simp
  then show m: "mset (ids t1) = mset (ids t) + {#?new#}" by (simp add: M1_def T_def N_def)
  have "distinct (?new # ids t)" using d newElement_fresh[of t "nname c"] by simp
  moreover have "mset (ids t1) = mset (?new # ids t)" using m by simp
  ultimately show "distinct (ids t1)" using distinct_mset_eq by blast
  from updateKids_get[OF u par(1)]
  have "getNodeByPath t1 q = Some (Node (nid par) (nname par) (?F (kids par)))" .
  moreover have "?F (kids par) ! k = Node (nid c) (nname c) (take e (kids c))"
    using par(2) by (simp add: nth_append)
  moreover have "k < length (?F (kids par))" using par(2) by simp
  ultimately show "getNodeByPath t1 (q @ [k]) = Some (Node (nid c) (nname c) (take e (kids c)))"
    by (simp add: getNodeByPath_snoc)
qed

lemma removeBlockGroup_interior:
  assumes d: "distinct (ids t)" and c: "getNodeByPath t (q @ [k]) = Some c"
    and s: "0 < s" "s \<le> e" "e < length (kids c)"
  shows "removeBlockGroup t (mkRange (q @ [k]) s e) =
     updateKids q (\<lambda>ks. take k ks @ [Node (nid c) (nname c) (take s (kids c))]
                          @ take (e - s) (drop s (kids c))
                          @ [Node (nid (newElement t (nname c))) (nname c) (drop e (kids c))]
                          @ drop (Suc k) ks) t"
proof -
  from getNodeByPath_snocD[OF c] obtain par where
    par: "getNodeByPath t q = Some par" "k < length (kids par)" "kids par ! k = c" by auto
  let ?new = "nid (newElement t (nname c))"
  let ?c1 = "Node (nid c) (nname c) (take e (kids c))"
  let ?c2 = "Node ?new (nname c) (drop e (kids c))"
  let ?F = "\<lambda>ks. take k ks @ [?c1, ?c2] @ drop (Suc k) ks"
  have e': "e \<le> length (kids c)" using s by simp
  have sp: "split t \<lparr>parentPath = q @ [k], offset = e\<rparr> = updateKids q ?F t"
    by (rule split_eq[OF c e'])
  from updateKids_Some[OF par(1), of ?F] obtain t1 where t1: "updateKids q ?F t = Some t1" by auto
  with sp have st1: "split t \<lparr>parentPath = q @ [k], offset = e\<rparr> = Some t1" by simp
  note sd = split_distinct[OF d c e' st1]
  from getPath_unique[OF sd(2) sd(3)] have gp: "getPath t1 (nid c) = Some (q @ [k])" by simp
  let ?x = "Node (nid c) (nname c) (take s (kids c))"
  let ?G = "\<lambda>ks. take (Suc k) (ks[k := Node (nid ?c1) (nname ?c1) (take s (kids ?c1) @ drop e (kids ?c1))])
             @ take (e - s) (drop s (kids ?c1))
             @ drop (Suc k) (ks[k := Node (nid ?c1) (nname ?c1) (take s (kids ?c1) @ drop e (kids ?c1))])"
  have "removeBlockGroup t (mkRange (q @ [k]) s e) =
      move t1 (mkRange (q @ [k]) s e) \<lparr>parentPath = q, offset = Suc k\<rparr>"
    using c s st1 sd(3) gp
    by (simp add: removeBlockGroup_def isAtStart_def isAtEnd_def position_parent_def createAfter_def)
  also have "\<dots> = updateKids q ?G t1"
    using s by (intro move_out[OF sd(3)]) auto
  also have "\<dots> = updateKids q (?G \<circ> ?F) t" by (rule updateKids_comp[OF t1])
  also have "\<dots> = updateKids q (\<lambda>ks. take k ks @ [?x] @ take (e - s) (drop s (kids c)) @ [?c2] @ drop (Suc k) ks) t"
  proof (rule updateKids_cong[OF par(1)])
    let ?A = "take k (kids par)"
    let ?B = "drop (Suc k) (kids par)"
    have lA: "length ?A = k" using par(2) by simp
    have F: "?F (kids par) = ?A @ ?c1 # ?c2 # ?B" by simp
    have up: "\<And>y. (?A @ ?c1 # ?c2 # ?B)[k := y] = ?A @ y # ?c2 # ?B"
      using lA by (metis list_update_length)
    have tk: "\<And>y. take (Suc k) (?A @ y # ?c2 # ?B) = ?A @ [y]"
      using lA by simp
    have dk: "\<And>y. drop (Suc k) (?A @ y # ?c2 # ?B) = ?c2 # ?B"
      using lA by simp
    have mid: "take s (take e (kids c)) @ drop e (take e (kids c)) = take s (kids c)"
      using s by (simp add: min_def)
    have mv: "take (e - s) (drop s (take e (kids c))) = take (e - s) (drop s (kids c))"
      using s by (simp add: drop_take)
    show "(?G \<circ> ?F) (kids par) =
        take k (kids par) @ [?x] @ take (e - s) (drop s (kids c)) @ [?c2] @ drop (Suc k) (kids par)"
      unfolding comp_def F up node.sel tk dk mid mv by simp
  qed
  finally show ?thesis .
qed

lemma mset_ids_replace_kid_updateKids:
  assumes par: "getNodeByPath t q = Some par" and k: "k < length (kids par)"
    and u: "updateKids q (\<lambda>ks. take k ks @ xs @ drop (Suc k) ks) t = Some t'"
  shows "mset (ids t') + mset (ids (kids par ! k)) = mset (ids t) + mset (concat (map ids xs))"
proof -
  define M1 where "M1 = mset (ids t')"
  define K where "K = mset (concat (map ids (kids par)))"
  define T where "T = mset (ids t)"
  define FK where "FK = mset (concat (map ids (take k (kids par) @ xs @ drop (Suc k) (kids par))))"
  define C where "C = mset (ids (kids par ! k))"
  define X where "X = mset (concat (map ids xs))"
  have 1: "M1 + K = T + FK"
    unfolding M1_def K_def T_def FK_def by (rule mset_ids_updateKids[OF par u])
  have 2: "FK + C = K + X"
    unfolding FK_def C_def K_def X_def by (rule mset_ids_replace_kid[OF k])
  have "(M1 + C) + K = (M1 + K) + C" by (simp add: ac_simps)
  also have "\<dots> = T + (FK + C)" using 1 by (simp add: ac_simps)
  also have "\<dots> = (T + X) + K" using 2 by (simp add: ac_simps)
  finally show ?thesis unfolding M1_def C_def T_def X_def by simp
qed

section \<open>Unwrapping one group\<close>

text \<open>
  Claim C2. When the range of an unwrap group starts at the start of an element C and ends
  at its end, the step of \<^verbatim>\<open>_removeBlock\<close> for the group removes C in place: the
  children of C's parent become the children before C, then C's children in their order,
  then the children after C; nothing else in the tree changes, C is no longer in the tree
  and every other element still is.
\<close>

theorem removeBlockGroup_full_range_unwraps:
  assumes "distinct (ids t)"
    and "getNodeByPath t q = Some par"
    and "getNodeByPath t (q @ [k]) = Some c"
  shows "\<exists>t'. removeBlockGroup t (mkRange (q @ [k]) 0 (length (kids c))) = Some t'
     \<and> updateKids q (\<lambda>ks. take k ks @ kids c @ drop (Suc k) ks) t = Some t'
     \<and> getNodeByPath t' q =
         Some (Node (nid par) (nname par) (take k (kids par) @ kids c @ drop (Suc k) (kids par)))
     \<and> nid c \<notin> set (ids t')
     \<and> mset (ids t') + {#nid c#} = mset (ids t)"
proof -
  from getNodeByPath_snocD[OF assms(3)] assms(2) have
    k: "k < length (kids par)" "kids par ! k = c" by auto
  let ?F = "\<lambda>ks. take k ks @ kids c @ drop (Suc k) ks"
  from updateKids_Some[OF assms(2), of ?F] obtain t' where t': "updateKids q ?F t = Some t'" by auto
  have step: "removeBlockGroup t (mkRange (q @ [k]) 0 (length (kids c))) = Some t'"
    using removeBlockGroup_full[OF assms(1,3)] t' by simp
  from mset_ids_replace_kid_updateKids[OF assms(2) k(1) t'] k(2)
  have "mset (ids t') + mset (ids c) = mset (ids t) + mset (concat (map ids (kids c)))" by simp
  then have m: "mset (ids t') + {#nid c#} = mset (ids t)" by (cases c) simp
  have "nid c \<notin> set (ids t')"
  proof
    assume "nid c \<in> set (ids t')"
    then have "count (mset (ids t')) (nid c) \<ge> 1" by (simp add: count_mset_0_iff Suc_le_eq)
    then have "count (mset (ids t') + {#nid c#}) (nid c) \<ge> 2" by simp
    with m have "count (mset (ids t)) (nid c) \<ge> 2" by simp
    moreover from assms(1) have "count (mset (ids t)) (nid c) \<le> 1"
      by (simp add: distinct_count_atmost_1)
    ultimately show False by simp
  qed
  with step t' updateKids_get[OF t' assms(2)] m show ?thesis by simp
qed

theorem removeBlockGroup_full_range_example:
  "distinct (ids blockedDoc)
   \<and> getNodeByPath blockedDoc [] = Some blockedDoc
   \<and> getNodeByPath blockedDoc ([] @ [0]) =
       Some (Node 9 ''codeBlock'' [paragraphNode 1, paragraphNode 2, paragraphNode 3, paragraphNode 4])
   \<and> removeBlockGroup blockedDoc (mkRange [0] 0 4) =
       Some (Node 0 ''$root'' [paragraphNode 1, paragraphNode 2, paragraphNode 3, paragraphNode 4])"
proof -
  have d: "distinct (ids blockedDoc)" by (simp add: blockedDoc_def paragraphNode_def)
  have p: "getNodeByPath blockedDoc [] = Some blockedDoc" by simp
  have c: "getNodeByPath blockedDoc ([] @ [0]) =
       Some (Node 9 ''codeBlock'' [paragraphNode 1, paragraphNode 2, paragraphNode 3, paragraphNode 4])"
    by (simp add: blockedDoc_def)
  from removeBlockGroup_full_range_unwraps[OF d p c] obtain t' where
    t': "removeBlockGroup blockedDoc (mkRange ([] @ [0]) 0
           (length (kids (Node 9 ''codeBlock'' [paragraphNode 1, paragraphNode 2, paragraphNode 3, paragraphNode 4])))) = Some t'"
    "getNodeByPath t' [] = Some (Node (nid blockedDoc) (nname blockedDoc)
        (take 0 (kids blockedDoc) @ kids (Node 9 ''codeBlock'' [paragraphNode 1, paragraphNode 2, paragraphNode 3, paragraphNode 4])
          @ drop (Suc 0) (kids blockedDoc)))"
    by blast
  from t'(2) have "t' = Node 0 ''$root'' [paragraphNode 1, paragraphNode 2, paragraphNode 3, paragraphNode 4]"
    by (simp add: blockedDoc_def)
  moreover have len: "length (kids (Node 9 ''codeBlock'' [paragraphNode 1, paragraphNode 2, paragraphNode 3, paragraphNode 4])) = 4"
    by simp
  note t'(1)[unfolded len append_Nil]
  ultimately show ?thesis using d p c by simp
qed

text \<open>
  Claim C3. When the range of an unwrap group starts after the start of an element C and
  ends before its end, the step of \<^verbatim>\<open>_removeBlock\<close> splits C after the end of the
  range and moves the content of the range to just after the truncated C: C's parent then
  holds, in C's place, C with the children before the range, the blocks of the range, and
  a new element of C's name with the children after the range. In particular, for C with
  the children \<open>[p, q, r, s]\<close> and the range covering \<open>[q, r]\<close>, the result is C
  holding \<open>[p]\<close>, then \<open>q\<close>, then \<open>r\<close>, then a new container holding \<open>[s]\<close>.
\<close>

theorem removeBlockGroup_interior_range_splits:
  assumes "distinct (ids t)"
    and "getNodeByPath t q = Some par"
    and "getNodeByPath t (q @ [k]) = Some c"
    and "0 < s" and "s \<le> e" and "e < length (kids c)"
  shows "\<exists>t'. removeBlockGroup t (mkRange (q @ [k]) s e) = Some t'
     \<and> getNodeByPath t' q =
         Some (Node (nid par) (nname par)
           (take k (kids par)
            @ [Node (nid c) (nname c) (take s (kids c))]
            @ take (e - s) (drop s (kids c))
            @ [Node (nid (newElement t (nname c))) (nname c) (drop e (kids c))]
            @ drop (Suc k) (kids par)))
     \<and> updateKids q (\<lambda>ks. take k ks
            @ [Node (nid c) (nname c) (take s (kids c))]
            @ take (e - s) (drop s (kids c))
            @ [Node (nid (newElement t (nname c))) (nname c) (drop e (kids c))]
            @ drop (Suc k) ks) t = Some t'
     \<and> nid (newElement t (nname c)) \<notin> set (ids t)
     \<and> (\<forall>p' q' r' s'. kids c = [p', q', r', s'] \<and> s = 1 \<and> e = 3 \<longrightarrow>
          getNodeByPath t' q =
            Some (Node (nid par) (nname par)
              (take k (kids par)
               @ [Node (nid c) (nname c) [p'], q', r',
                  Node (nid (newElement t (nname c))) (nname c) [s']]
               @ drop (Suc k) (kids par))))"
proof -
  let ?F = "\<lambda>ks. take k ks
            @ [Node (nid c) (nname c) (take s (kids c))]
            @ take (e - s) (drop s (kids c))
            @ [Node (nid (newElement t (nname c))) (nname c) (drop e (kids c))]
            @ drop (Suc k) ks"
  from updateKids_Some[OF assms(2), of ?F] obtain t' where t': "updateKids q ?F t = Some t'" by auto
  have step: "removeBlockGroup t (mkRange (q @ [k]) s e) = Some t'"
    using removeBlockGroup_interior[OF assms(1,3,4,5,6)] t' by simp
  note g = updateKids_get[OF t' assms(2)]
  have inst: "\<forall>p' q' r' s'. kids c = [p', q', r', s'] \<and> s = 1 \<and> e = 3 \<longrightarrow>
          getNodeByPath t' q =
            Some (Node (nid par) (nname par)
              (take k (kids par)
               @ [Node (nid c) (nname c) [p'], q', r',
                  Node (nid (newElement t (nname c))) (nname c) [s']]
               @ drop (Suc k) (kids par)))"
    using g by (auto simp: numeral_3_eq_3)
  from step g t' newElement_fresh[of t "nname c"] inst show ?thesis by blast
qed

theorem removeBlockGroup_interior_range_example:
  "distinct (ids blockedDoc)
   \<and> getNodeByPath blockedDoc [] = Some blockedDoc
   \<and> getNodeByPath blockedDoc ([] @ [0]) =
       Some (Node 9 ''codeBlock'' [paragraphNode 1, paragraphNode 2, paragraphNode 3, paragraphNode 4])
   \<and> removeBlockGroup blockedDoc (mkRange [0] 1 3) =
       Some (Node 0 ''$root''
         [Node 9 ''codeBlock'' [paragraphNode 1], paragraphNode 2, paragraphNode 3,
          Node 10 ''codeBlock'' [paragraphNode 4]])"
proof -
  let ?c = "Node 9 ''codeBlock'' [paragraphNode 1, paragraphNode 2, paragraphNode 3, paragraphNode 4]"
  have d: "distinct (ids blockedDoc)" by (simp add: blockedDoc_def paragraphNode_def)
  have p: "getNodeByPath blockedDoc [] = Some blockedDoc" by simp
  have c: "getNodeByPath blockedDoc ([] @ [0]) = Some ?c"
    by (simp add: blockedDoc_def)
  have n: "nid (newElement blockedDoc ''codeBlock'') = 10"
    by (simp add: newElement_def blockedDoc_def paragraphNode_def)
  have b: "(0::nat) < 1" "(1::nat) \<le> 3" "3 < length (kids ?c)" by simp_all
  from removeBlockGroup_interior_range_splits[OF d p c b] obtain t' where
    t': "removeBlockGroup blockedDoc (mkRange ([] @ [0]) 1 3) = Some t'"
    "\<forall>p' q' r' s'. kids ?c = [p', q', r', s'] \<and> (1::nat) = 1 \<and> (3::nat) = 3 \<longrightarrow>
          getNodeByPath t' [] =
            Some (Node (nid blockedDoc) (nname blockedDoc)
              (take 0 (kids blockedDoc)
               @ [Node (nid ?c) (nname ?c) [p'], q', r',
                  Node (nid (newElement blockedDoc (nname ?c))) (nname ?c) [s']]
               @ drop (Suc 0) (kids blockedDoc)))"
    by blast
  from t'(2) n have "t' = Node 0 ''$root''
         [Node 9 ''codeBlock'' [paragraphNode 1], paragraphNode 2, paragraphNode 3,
          Node 10 ''codeBlock'' [paragraphNode 4]]"
    by (simp add: blockedDoc_def)
  with t'(1)[unfolded append_Nil] d p c show ?thesis by simp
qed

section \<open>The Wrap path\<close>

lemma nextSibling_path:
  assumes "distinct (ids t)" "getNodeByPath t (q @ [k]) = Some n"
  shows "nextSibling t (nid n) =
     (case getNodeByPath t (q @ [Suc k]) of None \<Rightarrow> None | Some m \<Rightarrow> Some (nid m))"
proof -
  from getPath_unique[OF assms] have gp: "getPath t (nid n) = Some (q @ [k])" .
  from getNodeByPath_snocD[OF assms(2)] obtain par where
    par: "getNodeByPath t q = Some par" "k < length (kids par)" by auto
  show ?thesis
    using gp par by (simp add: nextSibling_def parent_def getNodeByPath_snoc)
qed

lemma findBlock_group_start:
  assumes "parent t b = Some par"
  shows "findBlock t (Position (range_start (groupRange t (b # g)))) =
     Some (if nname par = ''codeBlock'' then Some (nid par) else None)"
proof -
  from parentD[OF assms] obtain p where
    p: "getPath t b = Some p" "p \<noteq> []" "getNodeByPath t (butlast p) = Some par" by auto
  then show ?thesis
    by (simp add: findBlock_def parentOf_def position_parent_def groupRange_def createBefore_def)
qed

lemma applyBlockGroups_reuse:
  "\<forall>r\<in>set rs. \<exists>c. findBlock t (Position (range_start r)) = Some (Some c) \<Longrightarrow>
   applyBlockGroups (t, acc) rs =
     Some (t, acc @ map (\<lambda>r. the (findBlock t (Position (range_start r)))) rs)"
proof (induction rs arbitrary: acc)
  case Nil then show ?case by simp
next
  case (Cons r rs)
  from Cons.prems obtain c where c: "findBlock t (Position (range_start r)) = Some (Some c)" by auto
  then have "applyBlockGroup (t, acc) r = Some (t, acc @ [Some c])"
    by (simp add: applyBlockGroup_def)
  moreover have "applyBlockGroups (t, acc @ [Some c]) rs =
     Some (t, (acc @ [Some c]) @ map (\<lambda>r. the (findBlock t (Position (range_start r)))) rs)"
    using Cons.prems by (intro Cons.IH) auto
  ultimately show ?case using c by simp
qed

lemma isBlocked_parent:
  "isBlocked t b = Some True \<Longrightarrow> \<exists>par. parent t b = Some par \<and> nname par = ''codeBlock''"
  by (auto simp: isBlocked_def findBlock_def parentOf_def split: option.splits if_splits bind_splits)

section \<open>The Unwrap path over all groups\<close>

lemma collect_unfold:
  "collect L t = L (nid t) (nname t) (map label (kids t)) @ concat (map (collect L) (kids t))"
  by (cases t) simp

lemma concat_map_update:
  "k < length ks \<Longrightarrow>
   concat (map g (ks[k := c])) = concat (map g (take k ks)) @ g c @ concat (map g (drop (Suc k) ks))"
  by (simp add: upd_conv_take_nth_drop)

lemma concat_map_nth:
  "k < length ks \<Longrightarrow>
   concat (map g ks) = concat (map g (take k ks)) @ g (ks ! k) @ concat (map g (drop (Suc k) ks))"
  using concat_map_update[of k ks g "ks ! k"] by simp

lemma updateKids_label:
  "updateKids p f t = Some t' \<Longrightarrow> label t' = label t"
  by (cases p) (auto simp: label_def split: if_splits option.splits)

lemma collect_updateKids:
  "getNodeByPath t p = Some n \<Longrightarrow> updateKids p f t = Some t' \<Longrightarrow>
   \<exists>A B. collect L t = A @ collect L n @ B
        \<and> collect L t' = A @ collect L (Node (nid n) (nname n) (f (kids n))) @ B"
proof (induction p arbitrary: t t')
  case Nil
  then have "t' = Node (nid n) (nname n) (f (kids n))" "t = n" by auto
  then show ?case by (intro exI[of _ "[]"]) simp
next
  case (Cons k p)
  from Cons.prems obtain c where k: "k < length (kids t)"
    and g: "getNodeByPath (kids t ! k) p = Some n"
    and u: "updateKids p f (kids t ! k) = Some c"
    and t': "t' = Node (nid t) (nname t) ((kids t)[k := c])"
    by (auto split: if_splits option.splits)
  from Cons.IH[OF g u] obtain A B where
    ab: "collect L (kids t ! k) = A @ collect L n @ B"
        "collect L c = A @ collect L (Node (nid n) (nname n) (f (kids n))) @ B" by auto
  have lc: "label c = label (kids t ! k)" by (rule updateKids_label[OF u])
  have ml: "map label ((kids t)[k := c]) = map label (kids t)"
    using lc k by (simp add: map_update list_update_same_conv)
  let ?A = "L (nid t) (nname t) (map label (kids t)) @ concat (map (collect L) (take k (kids t))) @ A"
  let ?B = "B @ concat (map (collect L) (drop (Suc k) (kids t)))"
  have "collect L t = ?A @ collect L n @ ?B"
    using concat_map_nth[OF k, of "collect L"] ab(1) by (subst collect_unfold) simp
  moreover have "collect L t' = ?A @ collect L (Node (nid n) (nname n) (f (kids n))) @ ?B"
    using concat_map_update[OF k, of "collect L" c] ab(2) ml t' by simp
  ultimately show ?case by blast
qed

lemma ids_collect: "ids t = collect (\<lambda>i n ls. [i]) t"
  by (induction t) (simp add: map_idI cong: map_cong)

lemma collect_path:
  "a \<in> set (collect L t) \<longleftrightarrow>
     (\<exists>q n. getNodeByPath t q = Some n \<and> a \<in> set (L (nid n) (nname n) (map label (kids n))))"
proof
  assume "a \<in> set (collect L t)"
  then show "\<exists>q n. getNodeByPath t q = Some n \<and> a \<in> set (L (nid n) (nname n) (map label (kids n)))"
  proof (induction t)
    case (Node i nm ks)
    from Node.prems consider "a \<in> set (L i nm (map label ks))"
      | k where "k \<in> set ks" "a \<in> set (collect L k)" by auto
    then show ?case
    proof cases
      case 1
      then show ?thesis by (intro exI[of _ "[]"] exI[of _ "Node i nm ks"]) simp
    next
      case 2
      from Node.IH[OF 2] obtain q n where
        qn: "getNodeByPath k q = Some n" "a \<in> set (L (nid n) (nname n) (map label (kids n)))" by auto
      from 2(1) obtain j where j: "j < length ks" "ks ! j = k" by (auto simp: in_set_conv_nth)
      with qn show ?thesis by (intro exI[of _ "j # q"] exI[of _ n]) simp
    qed
  qed
next
  assume "\<exists>q n. getNodeByPath t q = Some n \<and> a \<in> set (L (nid n) (nname n) (map label (kids n)))"
  then obtain q n where qn: "getNodeByPath t q = Some n" "a \<in> set (L (nid n) (nname n) (map label (kids n)))"
    by auto
  then show "a \<in> set (collect L t)"
  proof (induction q arbitrary: t)
    case Nil
    then show ?case by (subst collect_unfold) simp
  next
    case (Cons j q)
    then have j: "j < length (kids t)" and "getNodeByPath (kids t ! j) q = Some n"
      by (auto split: if_splits)
    with Cons have "a \<in> set (collect L (kids t ! j))" by simp
    then show ?case using j by (subst collect_unfold) (auto intro!: bexI[of _ "kids t ! j"])
  qed
qed

lemma childFacts_path:
  "(x, pl) \<in> set (childFacts t) \<longleftrightarrow>
     (\<exists>q par k. getNodeByPath t q = Some par \<and> k < length (kids par)
        \<and> label (kids par ! k) = x \<and> label par = pl)"
proof
  assume "(x, pl) \<in> set (childFacts t)"
  then obtain q n where qn: "getNodeByPath t q = Some n"
    "(x, pl) \<in> set (map (\<lambda>l. (l, (nid n, nname n))) (map label (kids n)))"
    unfolding childFacts_def collect_path by blast
  from qn(2) obtain k where "k < length (kids n)" "x = label (kids n ! k)" "pl = (nid n, nname n)"
    by (auto simp: in_set_conv_nth)
  with qn(1) show "\<exists>q par k. getNodeByPath t q = Some par \<and> k < length (kids par)
        \<and> label (kids par ! k) = x \<and> label par = pl"
    by (intro exI[of _ q] exI[of _ n] exI[of _ k]) (simp add: label_def)
next
  assume "\<exists>q par k. getNodeByPath t q = Some par \<and> k < length (kids par)
        \<and> label (kids par ! k) = x \<and> label par = pl"
  then obtain q par k where f: "getNodeByPath t q = Some par" "k < length (kids par)"
    "label (kids par ! k) = x" "label par = pl" by auto
  then have "(x, pl) \<in> set (map (\<lambda>l. (l, (nid par, nname par))) (map label (kids par)))"
    by (auto simp: label_def intro!: image_eqI[of _ _ "kids par ! k"])
  with f(1) show "(x, pl) \<in> set (childFacts t)"
    unfolding childFacts_def collect_path by blast
qed

lemma parent_childFact:
  "parent t x = Some par \<Longrightarrow> \<exists>xn. ((x, xn), label par) \<in> set (childFacts t)"
proof -
  assume p: "parent t x = Some par"
  from parentD[OF p] obtain pth where
    pth: "getPath t x = Some pth" "pth \<noteq> []" "getNodeByPath t (butlast pth) = Some par" by auto
  from getPath_sound[OF pth(1)] obtain n where n: "getNodeByPath t pth = Some n" "nid n = x" by auto
  from pth(2) have "pth = butlast pth @ [last pth]" by simp
  with n(1) have "getNodeByPath t (butlast pth @ [last pth]) = Some n" by simp
  from getNodeByPath_snocD[OF this] pth(3) have "last pth < length (kids par)" "kids par ! last pth = n"
    by auto
  with pth(3) n(2) have "((x, nname n), label par) \<in> set (childFacts t)"
    unfolding childFacts_path by (auto simp: label_def)
  then show ?thesis by blast
qed

lemma childFact_parent:
  assumes "distinct (ids t)" and "((x, xn), pl) \<in> set (childFacts t)"
  shows "\<exists>par. parent t x = Some par \<and> label par = pl \<and> nameOf t x = Some xn"
proof -
  from assms(2) obtain q par k where
    f: "getNodeByPath t q = Some par" "k < length (kids par)" "label (kids par ! k) = (x, xn)" "label par = pl"
    unfolding childFacts_path by auto
  then have g: "getNodeByPath t (q @ [k]) = Some (kids par ! k)" by (simp add: getNodeByPath_snoc)
  from getPath_unique[OF assms(1) g] f(3) have gp: "getPath t x = Some (q @ [k])" by (simp add: label_def)
  with f g show ?thesis by (simp add: parent_def nameOf_def label_def)
qed

lemma agreeUpTo_label: "\<pi> \<noteq> [] \<Longrightarrow> agreeUpTo \<pi> t t' \<Longrightarrow> label t = label t'"
  by (induction \<pi> t t' rule: agreeUpTo.induct) auto

lemma take_eq_nth:
  "take s xs = take s ys \<Longrightarrow> a < s \<Longrightarrow> a < length xs \<Longrightarrow> a < length ys \<and> xs ! a = ys ! a"
proof -
  assume h: "take s xs = take s ys" "a < s" "a < length xs"
  from h(1) have "length (take s xs) = length (take s ys)" by (rule arg_cong)
  then have "min (length xs) s = min (length ys) s" by simp
  with h(2,3) have l: "a < length ys" by (auto simp: min_def split: if_splits)
  have "xs ! a = ys ! a" using h(1,2) by (metis nth_take)
  with l show ?thesis by simp
qed

lemma take_eq_take_le:
  "take s xs = take s ys \<Longrightarrow> e \<le> s \<Longrightarrow> take e xs = take e ys"
  by (metis min.absorb_iff2 take_take min.commute)

lemma take_eq_length:
  "take s xs = take s ys \<Longrightarrow> e \<le> s \<Longrightarrow> e \<le> length xs \<Longrightarrow> e \<le> length ys"
  by (metis length_take min.absorb_iff2 min.bounded_iff min.commute)

lemma agreeUpTo_stable:
  "agreeUpTo \<pi> t t' \<Longrightarrow> \<pi> \<noteq> [] \<Longrightarrow> w @ [e] < \<pi> \<Longrightarrow> getNodeByPath t w = Some n \<Longrightarrow>
   e < length (kids n) \<Longrightarrow>
   \<exists>n'. getNodeByPath t' w = Some n' \<and> label n' = label n \<and> e < length (kids n')
        \<and> map label (take (Suc e) (kids n')) = map label (take (Suc e) (kids n))
        \<and> take e (kids n') = take e (kids n)"
proof (induction \<pi> t t' arbitrary: w n rule: agreeUpTo.induct)
  case (1 t t')
  then show ?case by simp
next
  case (2 s t t')
  show ?case
  proof (cases w)
    case Nil
    with 2 have es: "e < s" and n: "n = t" by auto
    from 2(1) have tk: "take s (kids t) = take s (kids t')" by simp
    from take_eq_take_le[OF tk, of "Suc e"] es have t1: "take (Suc e) (kids t) = take (Suc e) (kids t')" by simp
    from take_eq_take_le[OF tk, of e] es have t2: "take e (kids t) = take e (kids t')" by simp
    from take_eq_length[OF tk, of "Suc e"] es 2(5) n have "e < length (kids t')" by simp
    with 2(1) t1 t2 n Nil show ?thesis by simp
  next
    case (Cons a w')
    with 2(3) have a: "a < s" by (auto split: if_splits)
    from 2(4) Cons have al: "a < length (kids t)" and g: "getNodeByPath (kids t ! a) w' = Some n"
      by (auto split: if_splits)
    from 2(1) have tk: "take s (kids t) = take s (kids t')" by simp
    from take_eq_nth[OF tk a al] have "a < length (kids t')" "kids t ! a = kids t' ! a" by auto
    with g Cons 2(5) show ?thesis by simp
  qed
next
  case (3 k a \<pi> t t')
  from 3(2) have lab: "label t = label t'" and tk: "take k (kids t) = take k (kids t')"
    and kl: "k < length (kids t)" "k < length (kids t')"
    and ag: "agreeUpTo (a # \<pi>) (kids t ! k) (kids t' ! k)" by auto
  show ?case
  proof (cases w)
    case Nil
    with 3 have ek: "e \<le> k" and n: "n = t" by (auto split: if_splits)
    from take_eq_take_le[OF tk ek] have t2: "take e (kids t) = take e (kids t')" .
    have elt: "e < length (kids t')" using ek kl by simp
    have "map label (take (Suc e) (kids t')) = map label (take (Suc e) (kids t))"
    proof (cases "e < k")
      case True
      with take_eq_take_le[OF tk, of "Suc e"] show ?thesis by simp
    next
      case False
      with ek have "e = k" by simp
      moreover have "label (kids t ! k) = label (kids t' ! k)"
        using agreeUpTo_label[OF _ ag] by simp
      ultimately show ?thesis using kl tk by (simp add: take_Suc_conv_app_nth)
    qed
    with lab t2 elt n Nil show ?thesis by simp
  next
    case (Cons b w')
    from 3(5) Cons have bl: "b < length (kids t)" and g: "getNodeByPath (kids t ! b) w' = Some n"
      by (auto split: if_splits)
    from 3(4) Cons consider "b < k" | "b = k" "w' @ [e] < a # \<pi>" by (auto split: if_splits)
    then show ?thesis
    proof cases
      case 1
      from take_eq_nth[OF tk 1 bl] have "b < length (kids t')" "kids t ! b = kids t' ! b" by auto
      with g Cons 3(6) show ?thesis by simp
    next
      case 2
      from 3(1)[OF ag _ 2(2) _ 3(6)] g 2(1) obtain n' where
        "getNodeByPath (kids t' ! k) w' = Some n'" "label n' = label n" "e < length (kids n')"
        "map label (take (Suc e) (kids n')) = map label (take (Suc e) (kids n))"
        "take e (kids n') = take e (kids n)" by auto
      with Cons 2(1) kl show ?thesis by simp
    qed
  qed
qed

lemma updateKids_agreeUpTo:
  "getNodeByPath t q = Some n \<Longrightarrow> updateKids q f t = Some t' \<Longrightarrow> \<pi> \<noteq> [] \<Longrightarrow>
   agreeUpTo \<pi> n (Node (nid n) (nname n) (f (kids n))) \<Longrightarrow> agreeUpTo (q @ \<pi>) t t'"
proof (induction q arbitrary: t t')
  case Nil
  then show ?case by auto
next
  case (Cons k q)
  from Cons.prems obtain c where k: "k < length (kids t)"
    and g: "getNodeByPath (kids t ! k) q = Some n"
    and u: "updateKids q f (kids t ! k) = Some c"
    and t': "t' = Node (nid t) (nname t) ((kids t)[k := c])"
    by (auto split: if_splits option.splits)
  from Cons.IH[OF g u Cons.prems(3,4)] have ih: "agreeUpTo (q @ \<pi>) (kids t ! k) c" .
  obtain a r where ar: "q @ \<pi> = a # r" using Cons.prems(3) by (cases "q @ \<pi>") auto
  show ?case
    using ih k t' ar by (simp add: label_def)
qed

lemma labels_unfold: "labels t = label t # concat (map labels (kids t))"
  by (cases t) (simp add: labels_def label_def)

lemma labels_Node [simp]: "labels (Node i n ks) = (i, n) # concat (map labels ks)"
  by (simp add: labels_def)

lemma childFacts_Node [simp]:
  "childFacts (Node i n ks) = map (\<lambda>l. (l, (i, n))) (map label ks) @ concat (map childFacts ks)"
  by (simp add: childFacts_def)

lemma concat_map_take_drop:
  "concat (map g (take s cs)) @ concat (map g (drop s cs)) = concat (map g cs)"
  by (metis append_take_drop_id concat_append map_append)

lemma concat_map_take_mid_drop:
  "s \<le> e \<Longrightarrow> concat (map g (take s cs)) @ concat (map g (take (e - s) (drop s cs)))
     @ concat (map g (drop e cs)) = concat (map g cs)"
proof -
  assume "s \<le> e"
  then have "cs = take s cs @ take (e - s) (drop s cs) @ drop e cs"
    by (metis add_diff_inverse_nat append_take_drop_id drop_drop le_antisym linorder_le_cases nat_less_le not_less add.commute)
  then have "concat (map g cs) = concat (map g (take s cs @ take (e - s) (drop s cs) @ drop e cs))"
    by simp
  then show ?thesis by simp
qed

text \<open>The generic frame lemma: replacing child k (a code block C) of the element at q by a list
  mid that holds C's children, bare or inside code blocks.\<close>

lemma replace_kid_frame:
  assumes par: "getNodeByPath t q = Some par" and k: "k < length (kids par)"
    and C: "kids par ! k = C" "nname C = ''codeBlock''"
    and u: "updateKids q (\<lambda>ks. take k ks @ mid @ drop (Suc k) ks) t = Some t'"
    and Hd: "filter (\<lambda>l. snd l \<noteq> ''codeBlock'') (concat (map labels mid)) =
             filter (\<lambda>l. snd l \<noteq> ''codeBlock'') (concat (map labels (kids C)))"
    and Hc: "\<forall>f. goodFact f \<and> f \<in> set (concat (map childFacts (kids C))) \<longrightarrow>
                 f \<in> set (concat (map childFacts mid))"
  shows "blockOrder t' = blockOrder t" and "keepsGoodFacts t t'"
proof -
  let ?F = "\<lambda>ks. take k ks @ mid @ drop (Suc k) ks"
  let ?ps = "kids par"
  let ?par' = "Node (nid par) (nname par) (?F ?ps)"
  let ?nc = "\<lambda>l::nat \<times> string. snd l \<noteq> ''codeBlock''"
  from collect_updateKids[OF par u, of "\<lambda>i n ls. [(i, n)]"] obtain A B where
    ab: "labels t = A @ labels par @ B" "labels t' = A @ labels ?par' @ B"
    by (auto simp: labels_def)
  have lp: "labels par = label par # concat (map labels (take k ?ps)) @ labels C
       @ concat (map labels (drop (Suc k) ?ps))"
    using concat_map_nth[OF k, of labels] C(1) by (subst labels_unfold) simp
  have lC: "filter ?nc (labels C) = filter ?nc (concat (map labels (kids C)))"
    using C(2) by (subst labels_unfold) (simp add: label_def)
  let ?X1 = "concat (map labels (take k ?ps))" and ?X2 = "concat (map labels (drop (Suc k) ?ps))"
  have "filter ?nc (labels ?par') =
      filter ?nc [label par] @ filter ?nc ?X1 @ filter ?nc (concat (map labels mid)) @ filter ?nc ?X2"
    by (simp add: label_def)
  moreover have "filter ?nc (labels par) =
      filter ?nc [label par] @ filter ?nc ?X1 @ filter ?nc (labels C) @ filter ?nc ?X2"
    by (subst lp) simp
  ultimately have eq: "filter ?nc (labels ?par') = filter ?nc (labels par)"
    using lC Hd by simp
  have "blockOrder t' = filter ?nc A @ filter ?nc (labels ?par') @ filter ?nc B"
    unfolding blockOrder_def ab(2) by (simp only: filter_append)
  also have "\<dots> = filter ?nc A @ filter ?nc (labels par) @ filter ?nc B"
    by (simp only: eq)
  also have "\<dots> = blockOrder t"
    unfolding blockOrder_def ab(1) by (simp only: filter_append)
  finally show "blockOrder t' = blockOrder t" .
  from collect_updateKids[OF par u, of "\<lambda>i n ls. map (\<lambda>l. (l, (i, n))) ls"] obtain A' B' where
    ab': "childFacts t = A' @ childFacts par @ B'" "childFacts t' = A' @ childFacts ?par' @ B'"
    by (auto simp: childFacts_def)
  have cp: "childFacts par = map (\<lambda>l. (l, (nid par, nname par))) (map label ?ps)
       @ concat (map childFacts (take k ?ps)) @ childFacts C @ concat (map childFacts (drop (Suc k) ?ps))"
    using concat_map_nth[OF k, of childFacts] C(1) by (cases par) simp
  have ps: "?ps = take k ?ps @ C # drop (Suc k) ?ps" using id_take_nth_drop[OF k] C(1) by simp
  have "\<forall>f\<in>set (childFacts par). goodFact f \<longrightarrow> f \<in> set (childFacts ?par')"
  proof (intro ballI impI)
    fix f assume f: "f \<in> set (childFacts par)" "goodFact f"
    from f(1) cp consider
      (loc) "f \<in> set (map (\<lambda>l. (l, (nid par, nname par))) (map label ?ps))"
      | (left) "f \<in> set (concat (map childFacts (take k ?ps)))"
      | (mid) "f \<in> set (childFacts C)"
      | (right) "f \<in> set (concat (map childFacts (drop (Suc k) ?ps)))" by auto
    then show "f \<in> set (childFacts ?par')"
    proof cases
      case loc
      then obtain x where x: "x \<in> set ?ps" "f = (label x, (nid par, nname par))" by auto
      with f(2) C(2) have "x \<noteq> C" by (auto simp: goodFact_def label_def)
      with x(1) ps have "x \<in> set (take k ?ps) \<or> x \<in> set (drop (Suc k) ?ps)"
        by (metis Un_iff set_ConsD set_append)
      with x(2) show ?thesis by auto
    next
      case left then show ?thesis by simp
    next
      case mid
      have "childFacts C = map (\<lambda>l. (l, (nid C, nname C))) (map label (kids C))
          @ concat (map childFacts (kids C))" by (cases C) simp
      with mid f(2) C(2) have "f \<in> set (concat (map childFacts (kids C)))"
        by (auto simp: goodFact_def)
      with Hc f(2) have "f \<in> set (concat (map childFacts mid))" by blast
      then show ?thesis by auto
    next
      case right then show ?thesis by simp
    qed
  qed
  with ab' show "keepsGoodFacts t t'" by (auto simp: keepsGoodFacts_def)
qed

lemma set_concat_take_drop:
  "set (concat (map g cs)) = set (concat (map g (take s cs))) \<union> set (concat (map g (drop s cs)))"
  using concat_map_take_drop[of g s cs] by (metis set_append)

lemma set_concat_take_mid_drop:
  "s \<le> e \<Longrightarrow> set (concat (map g cs)) =
     set (concat (map g (take s cs))) \<union> set (concat (map g (take (e - s) (drop s cs))))
     \<union> set (concat (map g (drop e cs)))"
  using concat_map_take_mid_drop[of s e g cs] by (metis set_append Un_assoc)

lemma distinct_iff_count_le: "distinct xs \<longleftrightarrow> (\<forall>a. count (mset xs) a \<le> 1)"
proof
  assume "distinct xs"
  then show "\<forall>a. count (mset xs) a \<le> 1" by (simp add: distinct_count_atmost_1)
next
  assume h: "\<forall>a. count (mset xs) a \<le> 1"
  have "\<And>a. count (mset xs) a = (if a \<in> set xs then 1 else 0)"
  proof -
    fix a
    show "count (mset xs) a = (if a \<in> set xs then 1 else 0)"
    proof (cases "a \<in> set xs")
      case True
      then have "count (mset xs) a \<ge> 1" by (simp add: Suc_le_eq)
      with h have "count (mset xs) a = 1" by (simp add: le_antisym)
      with True show ?thesis by simp
    next
      case False
      then show ?thesis by (simp add: count_mset_0_iff)
    qed
  qed
  then show "distinct xs" by (simp add: distinct_count_atmost_1)
qed

lemma distinct_mset_le:
  "mset xs + M = mset ys \<Longrightarrow> distinct ys \<Longrightarrow> distinct xs"
proof -
  assume h: "mset xs + M = mset ys" "distinct ys"
  have "\<And>a. count (mset xs) a \<le> 1"
  proof -
    fix a
    have "count (mset xs) a \<le> count (mset xs + M) a" by simp
    also have "\<dots> = count (mset ys) a" using h(1) by simp
    also have "\<dots> \<le> 1" by (rule distinct_iff_count_le[THEN iffD1, OF h(2), rule_format])
    finally show "count (mset xs) a \<le> 1" .
  qed
  then have "\<forall>a. count (mset xs) a \<le> 1" by simp
  then show ?thesis by (rule distinct_iff_count_le[THEN iffD2])
qed

lemma mset_cancel_same: "M + C = T + X \<Longrightarrow> X = C \<Longrightarrow> M = (T :: 'a multiset)"
  by simp

lemma mset_cancel_less: "M + C = T + X \<Longrightarrow> X + N = C \<Longrightarrow> M + N = (T :: 'a multiset)"
proof -
  assume h: "M + C = T + X" "X + N = C"
  then have "(M + N) + X = T + X" by (simp add: ac_simps)
  then show ?thesis by simp
qed

lemma mset_cancel_more: "M + C = T + X \<Longrightarrow> X = C + N \<Longrightarrow> M = T + (N :: 'a multiset)"
proof -
  assume h: "M + C = T + X" "X = C + N"
  then have "M + C = (T + N) + C" by (simp add: ac_simps)
  then show ?thesis by simp
qed

lemma agree_left:
  assumes par: "getNodeByPath t q = Some par" and k: "k < length (kids par)"
    and u: "updateKids q (\<lambda>ks. take k ks @ mid @ drop (Suc k) ks) t = Some t'"
  shows "agreeUpTo (q @ [k]) t t'"
  using k by (intro updateKids_agreeUpTo[OF par u]) (simp_all add: label_def)

lemma agree_right:
  assumes par: "getNodeByPath t q = Some par" and k: "k < length (kids par)"
    and u: "updateKids q (\<lambda>ks. take k ks @ (Node (nid (kids par ! k)) (nname (kids par ! k)) (take s (kids (kids par ! k))) # rest)
                               @ drop (Suc k) ks) t = Some t'"
  shows "agreeUpTo (q @ [k, s]) t t'"
  using k by (intro updateKids_agreeUpTo[OF par u]) (simp_all add: label_def nth_append)

lemma removeBlockGroup_step:
  assumes d: "distinct (ids t)" and c: "getNodeByPath t (q @ [k]) = Some C"
    and nm: "nname C = ''codeBlock''" and se: "s < e" "e \<le> length (kids C)"
  shows "\<exists>t'. removeBlockGroup t (mkRange (q @ [k]) s e) = Some t' \<and> distinct (ids t')
     \<and> agreeUpTo (if s = 0 then q @ [k] else q @ [k, s]) t t'
     \<and> keepsGoodFacts t t' \<and> blockOrder t' = blockOrder t"
proof -
  from getNodeByPath_snocD[OF c] obtain par where
    par: "getNodeByPath t q = Some par" "k < length (kids par)" "kids par ! k = C" by auto
  let ?cs = "kids C"
  let ?nc = "\<lambda>l::nat \<times> string. snd l \<noteq> ''codeBlock''"
  have idsC: "mset (ids C) = {#nid C#} + mset (concat (map ids ?cs))" by (cases C) simp
  consider (A) "s = 0" "e = length ?cs" | (B) "s = 0" "e < length ?cs"
    | (C) "0 < s" "e = length ?cs" | (D) "0 < s" "e < length ?cs"
    using se by linarith
  then show ?thesis
  proof cases
    case A
    let ?mid = "?cs"
    let ?F = "\<lambda>ks. take k ks @ ?mid @ drop (Suc k) ks"
    from updateKids_Some[OF par(1), of ?F] obtain t' where t': "updateKids q ?F t = Some t'" by auto
    have step: "removeBlockGroup t (mkRange (q @ [k]) s e) = Some t'"
      using removeBlockGroup_full[OF d c] t' A by simp
    have "mset (concat (map ids ?mid)) + {#nid C#} = mset (ids C)" using idsC by simp
    from mset_cancel_less[OF mset_ids_replace_kid_updateKids[OF par(1,2) t', unfolded par(3)] this]
    have "mset (ids t') + {#nid C#} = mset (ids t)" .
    from distinct_mset_le[OF this d] have d': "distinct (ids t')" .
    have ag: "agreeUpTo (q @ [k]) t t'" by (rule agree_left[OF par(1,2) t'])
    have Hd: "filter ?nc (concat (map labels ?mid)) = filter ?nc (concat (map labels ?cs))" by simp
    have Hc: "\<forall>f. goodFact f \<and> f \<in> set (concat (map childFacts ?cs)) \<longrightarrow> f \<in> set (concat (map childFacts ?mid))" by simp
    note fr = replace_kid_frame[OF par(1,2,3) nm t' Hd Hc]
    show ?thesis using step d' ag A fr by (intro exI[of _ t']) simp
  next
    case B
    let ?mid = "take e ?cs @ [Node (nid C) (nname C) (drop e ?cs)]"
    let ?F = "\<lambda>ks. take k ks @ ?mid @ drop (Suc k) ks"
    from updateKids_Some[OF par(1), of ?F] obtain t' where t': "updateKids q ?F t = Some t'" by auto
    have step: "removeBlockGroup t (mkRange (q @ [k]) s e) = Some t'"
      using removeBlockGroup_prefix[OF d c B(2)] t' B by simp
    have "mset (concat (map ids ?mid)) = mset (ids C)"
      using mset_ids_kids_split[of e ?cs] idsC by (simp add: ac_simps)
    from mset_cancel_same[OF mset_ids_replace_kid_updateKids[OF par(1,2) t', unfolded par(3)] this]
    have "mset (ids t') = mset (ids t)" .
    with d have d': "distinct (ids t')" using distinct_mset_eq by blast
    have ag: "agreeUpTo (q @ [k]) t t'" by (rule agree_left[OF par(1,2) t'])
    have Hd: "filter ?nc (concat (map labels ?mid)) = filter ?nc (concat (map labels ?cs))"
      using concat_map_take_drop[of labels e ?cs, symmetric] nm by simp
    have Hc: "\<forall>f. goodFact f \<and> f \<in> set (concat (map childFacts ?cs)) \<longrightarrow> f \<in> set (concat (map childFacts ?mid))"
      using set_concat_take_drop[of childFacts ?cs e] by auto
    note fr = replace_kid_frame[OF par(1,2,3) nm t' Hd Hc]
    show ?thesis using step d' ag B fr by (intro exI[of _ t']) simp
  next
    case C
    let ?mid = "Node (nid C) (nname C) (take s ?cs) # drop s ?cs"
    let ?F = "\<lambda>ks. take k ks @ ?mid @ drop (Suc k) ks"
    from updateKids_Some[OF par(1), of ?F] obtain t' where t': "updateKids q ?F t = Some t'" by auto
    have s': "s \<le> length ?cs" using se by simp
    have step: "removeBlockGroup t (mkRange (q @ [k]) s e) = Some t'"
      using removeBlockGroup_suffix[OF d c C(1) s'] t' C by simp
    have "mset (concat (map ids ?mid)) = mset (ids C)"
      using mset_ids_kids_split[of s ?cs] idsC by (simp add: ac_simps)
    from mset_cancel_same[OF mset_ids_replace_kid_updateKids[OF par(1,2) t', unfolded par(3)] this]
    have "mset (ids t') = mset (ids t)" .
    with d have d': "distinct (ids t')" using distinct_mset_eq by blast
    have ag: "agreeUpTo (q @ [k, s]) t t'"
      using t' par(3) by (intro agree_right[OF par(1,2), of s "drop s ?cs"]) simp
    have Hd: "filter ?nc (concat (map labels ?mid)) = filter ?nc (concat (map labels ?cs))"
      using concat_map_take_drop[of labels s ?cs, symmetric] nm by simp
    have Hc: "\<forall>f. goodFact f \<and> f \<in> set (concat (map childFacts ?cs)) \<longrightarrow> f \<in> set (concat (map childFacts ?mid))"
      using set_concat_take_drop[of childFacts ?cs s] by auto
    note fr = replace_kid_frame[OF par(1,2,3) nm t' Hd Hc]
    show ?thesis using step d' ag C fr by (intro exI[of _ t']) simp
  next
    case D
    let ?new = "nid (newElement t (nname C))"
    let ?mid = "Node (nid C) (nname C) (take s ?cs) # take (e - s) (drop s ?cs)
                  @ [Node ?new (nname C) (drop e ?cs)]"
    let ?F = "\<lambda>ks. take k ks @ ?mid @ drop (Suc k) ks"
    from updateKids_Some[OF par(1), of ?F] obtain t' where t': "updateKids q ?F t = Some t'" by auto
    have s': "s \<le> e" using se by simp
    have step: "removeBlockGroup t (mkRange (q @ [k]) s e) = Some t'"
      using removeBlockGroup_interior[OF d c D(1) s' D(2)] t' by simp
    have "mset (concat (map ids ?cs)) = mset (concat (map ids (take s ?cs)))
        + mset (concat (map ids (take (e - s) (drop s ?cs)))) + mset (concat (map ids (drop e ?cs)))"
    proof -
      have "mset (concat (map ids ?cs)) = mset (concat (map ids (take s ?cs))
          @ concat (map ids (take (e - s) (drop s ?cs))) @ concat (map ids (drop e ?cs)))"
        by (simp only: concat_map_take_mid_drop[OF s'])
      then show ?thesis by simp
    qed
    then have "mset (concat (map ids ?mid)) = mset (ids C) + {#?new#}"
      using idsC by (simp add: ac_simps)
    from mset_cancel_more[OF mset_ids_replace_kid_updateKids[OF par(1,2) t', unfolded par(3)] this]
    have m: "mset (ids t') = mset (?new # ids t)" by simp
    have "distinct (?new # ids t)" using d newElement_fresh[of t "nname C"] by simp
    with m have d': "distinct (ids t')" using distinct_mset_eq by blast
    have ag: "agreeUpTo (q @ [k, s]) t t'"
      using t' par(3)
      by (intro agree_right[OF par(1,2), of s "take (e - s) (drop s ?cs) @ [Node ?new (nname C) (drop e ?cs)]"]) simp
    have Hd: "filter ?nc (concat (map labels ?mid)) = filter ?nc (concat (map labels ?cs))"
      using concat_map_take_mid_drop[OF s', of labels ?cs, symmetric] nm by simp
    have Hc: "\<forall>f. goodFact f \<and> f \<in> set (concat (map childFacts ?cs)) \<longrightarrow> f \<in> set (concat (map childFacts ?mid))"
      using set_concat_take_mid_drop[OF s', of childFacts ?cs] by auto
    note fr = replace_kid_frame[OF par(1,2,3) nm t' Hd Hc]
    show ?thesis using step d' ag D fr by (intro exI[of _ t']) simp
  qed
qed

lemma keepsGoodFacts_trans:
  "keepsGoodFacts t t1 \<Longrightarrow> keepsGoodFacts t1 t2 \<Longrightarrow> keepsGoodFacts t t2"
  by (auto simp: keepsGoodFacts_def)

lemma keepsGoodFacts_refl: "keepsGoodFacts t t"
  by (simp add: keepsGoodFacts_def)

lemma spanOK_stable:
  assumes ok: "spanOK t r'" and ag: "agreeUpTo (startPos r) t t1" and ne: "startPos r \<noteq> []"
    and bf: "lastPos r' < startPos r"
  shows "spanOK t1 r'"
proof -
  obtain c' s' e' where r': "r' = (c', s', e')" by (cases r')
  from ok r' obtain C' where C': "c' \<noteq> []" "s' < e'" "getNodeByPath t c' = Some C'"
    "nname C' = ''codeBlock''" "e' \<le> length (kids C')"
    by (auto simp: spanOK_def split: option.splits)
  have lt: "c' @ [e' - 1] < startPos r" using bf r' by (simp add: lastPos_def)
  have el: "e' - 1 < length (kids C')" using C'(2,5) by simp
  from agreeUpTo_stable[OF ag ne lt C'(3) el] obtain n' where
    n': "getNodeByPath t1 c' = Some n'" "label n' = label C'" "e' - 1 < length (kids n')" by auto
  then show ?thesis using C' r' by (auto simp: spanOK_def label_def)
qed

lemma removeBlockGroups_spans:
  "distinct (ids t) \<Longrightarrow> sorted_wrt (\<lambda>a b. lastPos a < startPos b) ts \<Longrightarrow>
   \<forall>r\<in>set ts. spanOK t r \<Longrightarrow>
   \<exists>t'. removeBlockGroups t (rev (map toRange ts)) = Some t' \<and> distinct (ids t')
        \<and> keepsGoodFacts t t' \<and> blockOrder t' = blockOrder t"
proof (induction ts arbitrary: t rule: rev_induct)
  case Nil
  then show ?case by (simp add: keepsGoodFacts_refl)
next
  case (snoc r ts)
  obtain c s e where r: "r = (c, s, e)" by (cases r)
  from snoc.prems(3) r obtain C where C: "c \<noteq> []" "s < e" "getNodeByPath t c = Some C"
    "nname C = ''codeBlock''" "e \<le> length (kids C)"
    by (auto simp: spanOK_def split: option.splits)
  from C(1) obtain q k where qk: "c = q @ [k]" by (cases c rule: rev_cases) auto
  from removeBlockGroup_step[OF snoc.prems(1) C(3)[unfolded qk] C(4) C(2) C(5)]
  obtain t1 where t1: "removeBlockGroup t (mkRange (q @ [k]) s e) = Some t1" "distinct (ids t1)"
    "agreeUpTo (if s = 0 then q @ [k] else q @ [k, s]) t t1"
    "keepsGoodFacts t t1" "blockOrder t1 = blockOrder t" by blast
  have sp: "startPos r = (if s = 0 then q @ [k] else q @ [k, s])" using r qk by (simp add: startPos_def)
  have ne: "startPos r \<noteq> []" using sp by simp
  have ag: "agreeUpTo (startPos r) t t1" using t1(3) sp by simp
  from snoc.prems(2) have srt: "sorted_wrt (\<lambda>a b. lastPos a < startPos b) ts"
    and bf: "\<forall>r'\<in>set ts. lastPos r' < startPos r"
    by (auto simp: sorted_wrt_append)
  have ok1: "\<forall>r'\<in>set ts. spanOK t1 r'"
    using snoc.prems(3) bf spanOK_stable[OF _ ag ne] by auto
  from snoc.IH[OF t1(2) srt ok1] obtain t' where
    t': "removeBlockGroups t1 (rev (map toRange ts)) = Some t'" "distinct (ids t')"
    "keepsGoodFacts t1 t'" "blockOrder t' = blockOrder t1" by blast
  have "removeBlockGroups t (rev (map toRange (ts @ [r]))) = Some t'"
    using t1(1) t' r qk by (simp add: toRange_def)
  with t'(2) keepsGoodFacts_trans[OF t1(4) t'(3)] t'(4) t1(5) show ?case by auto
qed

lemma nextSibling_getPath:
  assumes d: "distinct (ids t)" and p: "getPath t x = Some (c @ [s])"
    and ns: "nextSibling t x = Some y"
  shows "getPath t y = Some (c @ [Suc s])"
proof -
  from ns p obtain par where par: "getNodeByPath t c = Some par" "Suc s < length (kids par)"
    "y = nid (kids par ! Suc s)"
    by (auto simp: nextSibling_def parent_def split: option.splits if_splits)
  then have "getNodeByPath t (c @ [Suc s]) = Some (kids par ! Suc s)"
    by (simp add: getNodeByPath_snoc)
  from getPath_unique[OF d this] par(3) show ?thesis by simp
qed

lemma siblingRun_last_path:
  "distinct (ids t) \<Longrightarrow> siblingRun t g \<Longrightarrow> g \<noteq> [] \<Longrightarrow> getPath t (hd g) = Some (c @ [s]) \<Longrightarrow>
   getPath t (last g) = Some (c @ [s + length g - 1])"
proof (induction t g arbitrary: s rule: siblingRun.induct)
  case (3 t b x bs)
  from 3(3) have ns: "nextSibling t b = Some x" and run: "siblingRun t (x # bs)" by auto
  from nextSibling_getPath[OF 3(2) _ ns] 3(5) have "getPath t x = Some (c @ [Suc s])" by simp
  from 3(1)[OF 3(2) run _ ] this have "getPath t (last (x # bs)) = Some (c @ [Suc s + length (x # bs) - 1])"
    by simp
  then show ?case by simp
qed auto

lemma lex_less_snoc_zero: "(w :: nat list) < c @ [0] \<Longrightarrow> w \<le> c"
proof (induction c arbitrary: w)
  case Nil
  then show ?case by (cases w) auto
next
  case (Cons k c)
  show ?case
  proof (cases w)
    case Nil then show ?thesis by simp
  next
    case (Cons a w')
    with Cons.prems consider "a < k" | "a = k" "w' < c @ [0]" by (auto split: if_splits)
    then show ?thesis
    proof cases
      case 1 with Cons show ?thesis by simp
    next
      case 2
      with Cons.IH[of w'] Cons show ?thesis by simp
    qed
  qed
qed

lemma sorted_wrt_concat_blocks:
  "sorted_wrt P (concat xss) \<Longrightarrow> sorted_wrt (\<lambda>g h. \<forall>x\<in>set g. \<forall>y\<in>set h. P x y) xss"
  by (induction xss) (auto simp: sorted_wrt_append)

lemma span_facts:
  assumes d: "distinct (ids t)" and ne: "g \<noteq> []" and run: "siblingRun t g"
    and par: "parent t (hd g) = Some par"
  shows "\<exists>c s. getPath t (hd g) = Some (c @ [s]) \<and> getNodeByPath t c = Some par
       \<and> spanOf t g = (c, s, s + length g)
       \<and> groupRange t g = toRange (spanOf t g)
       \<and> getPath t (last g) = Some (lastPos (spanOf t g))
       \<and> s + length g \<le> length (kids par)"
proof -
  from parentD[OF par] obtain p where
    p: "getPath t (hd g) = Some p" "p \<noteq> []" "getNodeByPath t (butlast p) = Some par" by auto
  define c where "c = butlast p"
  define s where "s = last p"
  have pcs: "p = c @ [s]" using p(2) by (simp add: c_def s_def)
  have hp: "getPath t (hd g) = Some (c @ [s])" using p(1) pcs by simp
  from siblingRun_last_path[OF d run ne hp] have lp: "getPath t (last g) = Some (c @ [s + length g - 1])" .
  have sp: "spanOf t g = (c, s, s + length g)" using p(1) pcs by (simp add: spanOf_def)
  have lg: "0 < length g" using ne by simp
  have gr: "groupRange t g = toRange (spanOf t g)"
    using hp lp sp lg by (simp add: groupRange_def createBefore_def createAfter_def toRange_def mkRange_def)
  from getPath_sound[OF lp] obtain n where "getNodeByPath t (c @ [s + length g - 1]) = Some n" by auto
  from getNodeByPath_snocD[OF this] p(3) have "s + length g - 1 < length (kids par)" by (simp add: c_def)
  with lg have le: "s + length g \<le> length (kids par)" by simp
  show ?thesis using hp p(3) sp gr lp le by (simp add: c_def lastPos_def)
qed

lemma maximalRuns_subset: "g \<in> set (maximalRuns t bs) \<Longrightarrow> set g \<subseteq> set bs"
proof -
  assume "g \<in> set (maximalRuns t bs)"
  then have "set g \<subseteq> set (concat (maximalRuns t bs))" by auto
  then show ?thesis by (simp add: concat_maximalRuns)
qed

lemma removeBlock_frame:
  assumes d: "distinct (ids t)" and root: "nname t \<noteq> ''codeBlock''"
    and blocked: "\<forall>b\<in>set bs. \<exists>par. parent t b = Some par \<and> nname par = ''codeBlock''"
    and notcb: "\<forall>b\<in>set bs. nameOf t b \<noteq> Some ''codeBlock''"
    and ord: "docOrdered t bs"
  shows "\<exists>t'. removeBlock t bs = Some t' \<and> distinct (ids t')
       \<and> keepsGoodFacts t t' \<and> blockOrder t' = blockOrder t"
proof -
  let ?runs = "maximalRuns t bs"
  let ?P = "\<lambda>x y. the (getPath t x) < the (getPath t y)"
  have par: "\<forall>b\<in>set bs. parent t b \<noteq> None" using blocked by auto
  have rg: "getRangesOfBlockGroups t bs = Some (map (groupRange t) ?runs)"
    by (rule getRanges_runs[OF par])
  have facts: "\<And>g. g \<in> set ?runs \<Longrightarrow>
      \<exists>c s par. getPath t (hd g) = Some (c @ [s]) \<and> getNodeByPath t c = Some par
       \<and> nname par = ''codeBlock''
       \<and> spanOf t g = (c, s, s + length g)
       \<and> groupRange t g = toRange (spanOf t g)
       \<and> getPath t (last g) = Some (lastPos (spanOf t g))
       \<and> s + length g \<le> length (kids par) \<and> g \<noteq> [] \<and> hd g \<in> set bs \<and> last g \<in> set bs"
  proof -
    fix g assume g: "g \<in> set ?runs"
    from maximalRuns_nonempty[OF g] have ne: "g \<noteq> []" .
    from maximalRuns_runs[OF g] have run: "siblingRun t g" .
    from maximalRuns_subset[OF g] ne have mem: "hd g \<in> set bs" "last g \<in> set bs" by auto
    with blocked obtain par where p: "parent t (hd g) = Some par" "nname par = ''codeBlock''" by auto
    from span_facts[OF d ne run p(1)] p(2) ne mem show "\<exists>c s par. getPath t (hd g) = Some (c @ [s]) \<and> getNodeByPath t c = Some par
       \<and> nname par = ''codeBlock''
       \<and> spanOf t g = (c, s, s + length g)
       \<and> groupRange t g = toRange (spanOf t g)
       \<and> getPath t (last g) = Some (lastPos (spanOf t g))
       \<and> s + length g \<le> length (kids par) \<and> g \<noteq> [] \<and> hd g \<in> set bs \<and> last g \<in> set bs"
      by blast
  qed
  let ?ts = "map (spanOf t) ?runs"
  have "\<And>g. g \<in> set ?runs \<Longrightarrow> toRange (spanOf t g) = groupRange t g"
  proof -
    fix g assume "g \<in> set ?runs"
    from facts[OF this] obtain c s par where "groupRange t g = toRange (spanOf t g)" by blast
    then show "toRange (spanOf t g) = groupRange t g" by simp
  qed
  then have rs: "map toRange ?ts = map (groupRange t) ?runs" by simp
  have ok: "\<forall>r\<in>set ?ts. spanOK t r"
  proof
    fix r assume "r \<in> set ?ts"
    then obtain g where g: "g \<in> set ?runs" "r = spanOf t g" by auto
    from facts[OF g(1)] obtain c s par where
      f: "getPath t (hd g) = Some (c @ [s])" "getNodeByPath t c = Some par" "nname par = ''codeBlock''"
      "spanOf t g = (c, s, s + length g)" "s + length g \<le> length (kids par)" "g \<noteq> []" by blast
    have "c \<noteq> []"
    proof
      assume "c = []"
      with f(2) have "par = t" by simp
      with f(3) root show False by simp
    qed
    with f g(2) show "spanOK t r" by (simp add: spanOK_def)
  qed
  have "sorted_wrt ?P (concat ?runs)" using ord by (simp add: concat_maximalRuns docOrdered_def)
  from sorted_wrt_concat_blocks[OF this]
  have sb: "sorted_wrt (\<lambda>g h. \<forall>x\<in>set g. \<forall>y\<in>set h. ?P x y) ?runs" .
  have "sorted_wrt (\<lambda>g h. lastPos (spanOf t g) < startPos (spanOf t h)) ?runs"
  proof (rule sorted_wrt_mono_rel[OF _ sb])
    fix g h assume gh: "g \<in> set ?runs" "h \<in> set ?runs" "\<forall>x\<in>set g. \<forall>y\<in>set h. ?P x y"
    from facts[OF gh(1)] obtain cg sg where
      fg: "getPath t (last g) = Some (lastPos (spanOf t g))" "g \<noteq> []" "last g \<in> set bs" by blast
    from facts[OF gh(2)] obtain c s par where
      fh: "getPath t (hd h) = Some (c @ [s])" "getNodeByPath t c = Some par" "nname par = ''codeBlock''"
      "spanOf t h = (c, s, s + length h)" "h \<noteq> []" by blast
    from gh(3) fg(2) fh(5) have "?P (last g) (hd h)" by simp
    with fg(1) fh(1) have lt: "lastPos (spanOf t g) < c @ [s]" by simp
    show "lastPos (spanOf t g) < startPos (spanOf t h)"
    proof (cases "s = 0")
      case False
      with lt fh(4) show ?thesis by (simp add: startPos_def)
    next
      case True
      with lt lex_less_snoc_zero have le: "lastPos (spanOf t g) \<le> c" by simp
      have "lastPos (spanOf t g) \<noteq> c"
      proof
        assume eq: "lastPos (spanOf t g) = c"
        from getPath_sound[OF fg(1)] obtain n where n: "getNodeByPath t (lastPos (spanOf t g)) = Some n"
          "nid n = last g" by auto
        with eq fh(2) have "n = par" by simp
        moreover have "nameOf t (last g) = Some (nname n)" using fg(1) n by (simp add: nameOf_def)
        ultimately show False using notcb fg(3) fh(3) by auto
      qed
      with le True fh(4) show ?thesis by (simp add: startPos_def)
    qed
  qed
  then have srt: "sorted_wrt (\<lambda>a b. lastPos a < startPos b) ?ts" by (simp add: sorted_wrt_map)
  from removeBlockGroups_spans[OF d srt ok] obtain t' where
    t': "removeBlockGroups t (rev (map toRange ?ts)) = Some t'" "distinct (ids t')"
    "keepsGoodFacts t t'" "blockOrder t' = blockOrder t" by blast
  have "removeBlockGroups t (rev (map (groupRange t) ?runs)) = Some t'"
    using t'(1) by (simp only: rs)
  with rg have "removeBlock t bs = Some t'" by (simp add: removeBlock_def)
  with t' show ?thesis by blast
qed

lemma keepsGoodFacts_parent:
  assumes k: "keepsGoodFacts t t'" and d: "distinct (ids t)" and d': "distinct (ids t')"
    and p: "parent t x = Some par" and np: "nname par \<noteq> ''codeBlock''"
    and nx: "nameOf t x \<noteq> Some ''codeBlock''"
  shows "\<exists>par'. parent t' x = Some par' \<and> nid par' = nid par \<and> nname par' = nname par"
proof -
  from parent_childFact[OF p] obtain xn where f: "((x, xn), label par) \<in> set (childFacts t)" by auto
  from childFact_parent[OF d f] have "nameOf t x = Some xn" by auto
  with nx np have "goodFact ((x, xn), label par)" by (auto simp: goodFact_def label_def)
  with k f have "((x, xn), label par) \<in> set (childFacts t')" by (auto simp: keepsGoodFacts_def)
  from childFact_parent[OF d' this] show ?thesis by (auto simp: label_def)
qed

lemma isBlocked_total:
  "parent t b \<noteq> None \<Longrightarrow> \<exists>r. isBlocked t b = Some r"
  by (auto simp: isBlocked_def findBlock_def parentOf_def)

lemma docOrdered_filter: "docOrdered t bs \<Longrightarrow> docOrdered t (filter P bs)"
  by (simp add: docOrdered_def sorted_wrt_filter)

text \<open>
  Claim C10. When \<^verbatim>\<open>execute\<close> runs with \<^verbatim>\<open>value\<close> true, on a tree with distinct
  identities whose root is not a code block and a selection in document order of blocks
  that are in the tree and are not code blocks themselves, it returns; the blocks passed
  to \<^verbatim>\<open>_removeBlock\<close> are exactly the selected blocks whose immediate parent is a
  container; and every element that is neither a container nor a direct child of a
  container (so every selected block that is not a direct child of a container) keeps its
  parent, while the document order of all elements that are not containers stays as it
  was.
\<close>

theorem execute_unwrap_frame:
  assumes "value ed"
    and "distinct (ids (document ed))"
    and "nname (document ed) \<noteq> ''codeBlock''"
    and "\<forall>b\<in>set (selectedBlocks ed).
           parent (document ed) b \<noteq> None \<and> nameOf (document ed) b \<noteq> Some ''codeBlock''"
    and "docOrdered (document ed) (selectedBlocks ed)"
  shows "\<exists>ed'. execute ed = Some ed'
     \<and> filterBlocks (isBlocked (document ed)) (selectedBlocks ed) =
         Some (filter (\<lambda>b. isBlocked (document ed) b = Some True) (selectedBlocks ed))
     \<and> removeBlock (document ed)
           (filter (\<lambda>b. isBlocked (document ed) b = Some True) (selectedBlocks ed)) =
         Some (document ed')
     \<and> (\<forall>x par. parent (document ed) x = Some par \<and> nname par \<noteq> ''codeBlock''
            \<and> nameOf (document ed) x \<noteq> Some ''codeBlock'' \<longrightarrow>
          (\<exists>par'. parent (document ed') x = Some par' \<and> nid par' = nid par
                  \<and> nname par' = nname par))
     \<and> blockOrder (document ed') = blockOrder (document ed)"
proof -
  let ?t = "document ed" and ?sel = "selectedBlocks ed"
  let ?bs = "filter (\<lambda>b. isBlocked ?t b = Some True) ?sel"
  have fb: "filterBlocks (isBlocked ?t) ?sel = Some ?bs"
    using assms(4) isBlocked_total by (intro filterBlocks_total) auto
  have blocked: "\<forall>b\<in>set ?bs. \<exists>par. parent ?t b = Some par \<and> nname par = ''codeBlock''"
    using isBlocked_parent by auto
  have notcb: "\<forall>b\<in>set ?bs. nameOf ?t b \<noteq> Some ''codeBlock''" using assms(4) by auto
  from removeBlock_frame[OF assms(2,3) blocked notcb docOrdered_filter[OF assms(5)]]
  obtain t' where t': "removeBlock ?t ?bs = Some t'" "distinct (ids t')"
    "keepsGoodFacts ?t t'" "blockOrder t' = blockOrder ?t" by blast
  have ex: "execute ed = Some (ed\<lparr>document := t'\<rparr>)"
    using assms(1) fb t'(1) by (simp add: execute_def)
  have fr: "\<forall>x par. parent ?t x = Some par \<and> nname par \<noteq> ''codeBlock''
            \<and> nameOf ?t x \<noteq> Some ''codeBlock'' \<longrightarrow>
          (\<exists>par'. parent t' x = Some par' \<and> nid par' = nid par \<and> nname par' = nname par)"
    using keepsGoodFacts_parent[OF t'(3) assms(2) t'(2)] by blast
  show ?thesis
    using ex fb t'(1,4) fr by (intro exI[of _ "ed\<lparr>document := t'\<rparr>"]) simp
qed

theorem execute_unwrap_frame_example:
  "value partlyBlockedEditor
   \<and> distinct (ids (document partlyBlockedEditor))
   \<and> nname (document partlyBlockedEditor) \<noteq> ''codeBlock''
   \<and> list_all (\<lambda>b. parent (document partlyBlockedEditor) b \<noteq> None
                    \<and> nameOf (document partlyBlockedEditor) b \<noteq> Some ''codeBlock'')
         (selectedBlocks partlyBlockedEditor)
   \<and> docOrdered (document partlyBlockedEditor) (selectedBlocks partlyBlockedEditor)
   \<and> map_option document (execute partlyBlockedEditor) =
       Some (Node 0 ''$root''
          [paragraphNode 1, Node 9 ''codeBlock'' [paragraphNode 2], paragraphNode 3])
   \<and> parent (Node 0 ''$root''
          [paragraphNode 1, Node 9 ''codeBlock'' [paragraphNode 2], paragraphNode 3]) 3
       = Some (Node 0 ''$root''
          [paragraphNode 1, Node 9 ''codeBlock'' [paragraphNode 2], paragraphNode 3])"
proof -
  have v: "value partlyBlockedEditor" by (simp add: partlyBlockedEditor_def)
  have d: "distinct (ids (document partlyBlockedEditor))" by code_simp
  have r: "nname (document partlyBlockedEditor) \<noteq> ''codeBlock''" by code_simp
  have a: "list_all (\<lambda>b. parent (document partlyBlockedEditor) b \<noteq> None
                    \<and> nameOf (document partlyBlockedEditor) b \<noteq> Some ''codeBlock'')
         (selectedBlocks partlyBlockedEditor)" by code_simp
  have a': "\<forall>b\<in>set (selectedBlocks partlyBlockedEditor).
      parent (document partlyBlockedEditor) b \<noteq> None
      \<and> nameOf (document partlyBlockedEditor) b \<noteq> Some ''codeBlock''"
    using a by (simp add: list_all_iff)
  have o: "docOrdered (document partlyBlockedEditor) (selectedBlocks partlyBlockedEditor)"
    by code_simp
  have e: "map_option document (execute partlyBlockedEditor) =
       Some (Node 0 ''$root''
          [paragraphNode 1, Node 9 ''codeBlock'' [paragraphNode 2], paragraphNode 3])"
    by code_simp
  have p: "parent (Node 0 ''$root''
          [paragraphNode 1, Node 9 ''codeBlock'' [paragraphNode 2], paragraphNode 3]) 3
       = Some (Node 0 ''$root''
          [paragraphNode 1, Node 9 ''codeBlock'' [paragraphNode 2], paragraphNode 3])"
    by code_simp
  from execute_unwrap_frame[OF v d r a' o] obtain ed' where "execute partlyBlockedEditor = Some ed'"
    by blast
  with v d r a o e p show ?thesis by simp
qed

section \<open>Wrap followed by Unwrap\<close>

lemma strip_unfold: "strip S t = Node (nid t) (nname t) (stripKids S (kids t))"
  by (cases t) (simp add: stripKids_def)

lemma strip_label [simp]: "nid (strip S t) = nid t" "nname (strip S t) = nname t"
  by (cases t; simp)+

lemma stripKids_append [simp]: "stripKids S (xs @ ys) = stripKids S xs @ stripKids S ys"
  by (simp add: stripKids_def)

lemma stripKids_Nil [simp]: "stripKids S [] = []"
  by (simp add: stripKids_def)

lemma stripKids_Cons:
  "stripKids S (k # ks) = (if nid k \<in> S then kids (strip S k) else [strip S k]) @ stripKids S ks"
  by (simp add: stripKids_def)

lemma stripKids_boxed:
  "w \<in> S \<Longrightarrow> stripKids S [Node w n xs] = stripKids S xs"
  by (simp add: stripKids_def)

lemma strip_id: "set (ids t) \<inter> S = {} \<Longrightarrow> strip S t = t"
proof (induction t)
  case (Node i n ks)
  have "\<forall>k\<in>set ks. nid k \<notin> S \<and> strip S k = k"
  proof
    fix k assume k: "k \<in> set ks"
    then have "set (ids k) \<subseteq> set (ids (Node i n ks))" by auto
    with Node.prems have d: "set (ids k) \<inter> S = {}" by blast
    with Node.IH[OF k] have "strip S k = k" by simp
    moreover have "nid k \<notin> S" using d nid_in_ids[of k] by blast
    ultimately show "nid k \<notin> S \<and> strip S k = k" by simp
  qed
  then have "concat (map (\<lambda>k. if nid k \<in> S then kids (strip S k) else [strip S k]) ks) = concat (map (\<lambda>k. [k]) ks)"
    by (intro arg_cong[where f=concat] map_cong) auto
  then show ?case by simp
qed

lemma stripKids_update:
  "k < length ks \<Longrightarrow> nid c = nid (ks ! k) \<Longrightarrow> strip S c = strip S (ks ! k) \<Longrightarrow>
   stripKids S (ks[k := c]) = stripKids S ks"
proof -
  assume h: "k < length ks" "nid c = nid (ks ! k)" "strip S c = strip S (ks ! k)"
  have "ks[k := c] = take k ks @ c # drop (Suc k) ks" using h(1) by (simp add: upd_conv_take_nth_drop)
  moreover have "ks = take k ks @ (ks ! k) # drop (Suc k) ks" using h(1) by (simp add: id_take_nth_drop[symmetric])
  ultimately have "stripKids S (ks[k := c]) = stripKids S (take k ks) @ stripKids S [c] @ stripKids S (drop (Suc k) ks)"
    and "stripKids S ks = stripKids S (take k ks) @ stripKids S [ks ! k] @ stripKids S (drop (Suc k) ks)"
    by (metis append_Cons append_Nil stripKids_append)+
  moreover have "stripKids S [c] = stripKids S [ks ! k]" using h(2,3) by (simp add: stripKids_def)
  ultimately show ?thesis by simp
qed

lemma strip_updateKids:
  "getNodeByPath t q = Some n \<Longrightarrow> updateKids q f t = Some t' \<Longrightarrow>
   stripKids S (f (kids n)) = stripKids S (kids n) \<Longrightarrow> strip S t' = strip S t"
proof (induction q arbitrary: t t')
  case Nil
  then have t': "t' = Node (nid n) (nname n) (f (kids n))" and tn: "t = n" by auto
  have "strip S t' = Node (nid n) (nname n) (stripKids S (f (kids n)))"
    unfolding t' by (subst strip_unfold) simp
  also have "\<dots> = Node (nid n) (nname n) (stripKids S (kids n))" using Nil.prems(3) by simp
  also have "\<dots> = strip S n" by (rule strip_unfold[symmetric])
  finally show ?case using tn by simp
next
  case (Cons k q)
  from Cons.prems obtain c where k: "k < length (kids t)"
    and g: "getNodeByPath (kids t ! k) q = Some n"
    and u: "updateKids q f (kids t ! k) = Some c"
    and t': "t' = Node (nid t) (nname t) ((kids t)[k := c])"
    by (auto split: if_splits option.splits)
  from Cons.IH[OF g u Cons.prems(3)] have ih: "strip S c = strip S (kids t ! k)" .
  have "nid c = nid (kids t ! k)" using updateKids_root_label[OF u] by simp
  from stripKids_update[OF k this ih] have sk: "stripKids S ((kids t)[k := c]) = stripKids S (kids t)" .
  have "strip S t' = Node (nid t) (nname t) (stripKids S ((kids t)[k := c]))"
    unfolding t' by (subst strip_unfold) simp
  also have "\<dots> = strip S t" unfolding sk by (rule strip_unfold[symmetric])
  finally show ?case .
qed

lemma fst_label [simp]: "fst (label x) = nid x"
  by (simp add: label_def)

lemma snd_label [simp]: "snd (label x) = nname x"
  by (simp add: label_def)

lemma map_fst_label [simp]: "map (fst \<circ> label) ks = map nid ks"
  by simp

lemma shapeFacts_Node [simp]:
  "shapeFacts (Node i n ks) = (i, n, map nid ks) # concat (map shapeFacts ks)"
  by (simp add: shapeFacts_def)

lemma adjFacts_Node [simp]:
  "adjFacts (Node i n ks) = pairs (map nid ks) @ concat (map adjFacts ks)"
  by (simp add: adjFacts_def)

lemma pairs_Nil [simp]: "pairs [] = []" by (simp add: pairs_def)

lemma pairs_single [simp]: "pairs [x] = []" by (simp add: pairs_def)

lemma pairs_Cons2 [simp]: "pairs (x # y # xs) = (x, y) # pairs (y # xs)" by (simp add: pairs_def)

lemma set_pairs_append:
  "set (pairs (xs @ ys)) =
     set (pairs xs) \<union> set (pairs ys) \<union> (if xs \<noteq> [] \<and> ys \<noteq> [] then {(last xs, hd ys)} else {})"
proof (induction xs)
  case Nil then show ?case by simp
next
  case (Cons x xs)
  show ?case
  proof (cases xs)
    case Nil
    then show ?thesis by (cases ys) auto
  next
    case (Cons x' xs')
    with Cons.IH show ?thesis by auto
  qed
qed

lemma pairs_nth: "(a, b) \<in> set (pairs xs) \<longleftrightarrow> (\<exists>i. Suc i < length xs \<and> xs ! i = a \<and> xs ! Suc i = b)"
proof -
  have "(a, b) \<in> set (pairs xs) \<longleftrightarrow> (\<exists>n. xs ! n = a \<and> tl xs ! n = b \<and> n < length xs \<and> n < length (tl xs))"
    unfolding pairs_def in_set_zip by simp
  also have "\<dots> \<longleftrightarrow> (\<exists>i. Suc i < length xs \<and> xs ! i = a \<and> xs ! Suc i = b)"
  proof (intro iffI; elim exE conjE)
    fix n assume n: "xs ! n = a" "tl xs ! n = b" "n < length xs" "n < length (tl xs)"
    from n(4) have "Suc n < length xs" by simp
    moreover from n(2,4) have "xs ! Suc n = b" by (simp add: nth_tl)
    ultimately show "\<exists>i. Suc i < length xs \<and> xs ! i = a \<and> xs ! Suc i = b" using n(1) by blast
  next
    fix i assume i: "Suc i < length xs" "xs ! i = a" "xs ! Suc i = b"
    then have "xs ! i = a \<and> tl xs ! i = b \<and> i < length xs \<and> i < length (tl xs)"
      by (simp add: nth_tl)
    then show "\<exists>n. xs ! n = a \<and> tl xs ! n = b \<and> n < length xs \<and> n < length (tl xs)" by blast
  qed
  finally show ?thesis .
qed

lemma set_pairs_mem: "(a, b) \<in> set (pairs xs) \<Longrightarrow> a \<in> set xs \<and> b \<in> set xs"
  unfolding pairs_nth by (auto intro: nth_mem Suc_lessD)

lemma shapeFacts_path:
  "f \<in> set (shapeFacts t) \<longleftrightarrow>
     (\<exists>q n. getNodeByPath t q = Some n \<and> f = (nid n, nname n, map nid (kids n)))"
  unfolding shapeFacts_def collect_path by simp

lemma adjFacts_path:
  "p \<in> set (adjFacts t) \<longleftrightarrow>
     (\<exists>q n. getNodeByPath t q = Some n \<and> p \<in> set (pairs (map nid (kids n))))"
  unfolding adjFacts_def collect_path by simp

lemma kid_in_ids: "getNodeByPath t q = Some n \<Longrightarrow> k \<in> set (kids n) \<Longrightarrow> nid k \<in> set (ids t)"
proof -
  assume g: "getNodeByPath t q = Some n" and k: "k \<in> set (kids n)"
  from k obtain j where j: "j < length (kids n)" "kids n ! j = k" by (auto simp: in_set_conv_nth)
  from kid_ids_subset[OF j(1)] j(2) nid_in_ids[of k] have "nid k \<in> set (ids n)" by auto
  with getNodeByPath_ids[OF g] show ?thesis by auto
qed

lemma adjFacts_ids:
  assumes "(a, b) \<in> set (adjFacts t)"
  shows "a \<in> set (ids t) \<and> b \<in> set (ids t)"
proof -
  from assms obtain q n where n: "getNodeByPath t q = Some n" "(a, b) \<in> set (pairs (map nid (kids n)))"
    unfolding adjFacts_path by auto
  from set_pairs_mem[OF n(2)] obtain x y where "x \<in> set (kids n)" "a = nid x" "y \<in> set (kids n)" "b = nid y"
    by auto
  with kid_in_ids[OF n(1)] show ?thesis by auto
qed

lemma take_mid_drop: "s \<le> e \<Longrightarrow> take s cs @ take (e - s) (drop s cs) @ drop e cs = cs"
  by (metis add_diff_inverse_nat append_take_drop_id drop_drop le_antisym linorder_le_cases nat_less_le not_less add.commute)

lemma wrap_collect:
  assumes P: "getNodeByPath t c = Some P" and u: "updateKids c (wrapKids w s e) t = Some t'"
    and se: "s \<le> e"
  shows "\<exists>A B. collect L t = A @ L (nid P) (nname P) (map label (kids P))
                   @ concat (map (collect L) (take s (kids P)))
                   @ concat (map (collect L) (take (e - s) (drop s (kids P))))
                   @ concat (map (collect L) (drop e (kids P))) @ B
     \<and> collect L t' = A @ L (nid P) (nname P) (map label (wrapKids w s e (kids P)))
                   @ concat (map (collect L) (take s (kids P)))
                   @ L w ''codeBlock'' (map label (take (e - s) (drop s (kids P))))
                   @ concat (map (collect L) (take (e - s) (drop s (kids P))))
                   @ concat (map (collect L) (drop e (kids P))) @ B"
proof -
  from collect_updateKids[OF P u, of L] obtain A B where
    ab: "collect L t = A @ collect L P @ B"
        "collect L t' = A @ collect L (Node (nid P) (nname P) (wrapKids w s e (kids P))) @ B" by auto
  have 1: "collect L P = L (nid P) (nname P) (map label (kids P))
                   @ concat (map (collect L) (take s (kids P)))
                   @ concat (map (collect L) (take (e - s) (drop s (kids P))))
                   @ concat (map (collect L) (drop e (kids P)))"
    by (subst collect_unfold) (simp add: concat_map_take_mid_drop[OF se])
  have 2: "collect L (Node (nid P) (nname P) (wrapKids w s e (kids P))) =
      L (nid P) (nname P) (map label (wrapKids w s e (kids P)))
                   @ concat (map (collect L) (take s (kids P)))
                   @ L w ''codeBlock'' (map label (take (e - s) (drop s (kids P))))
                   @ concat (map (collect L) (take (e - s) (drop s (kids P))))
                   @ concat (map (collect L) (drop e (kids P)))"
    by (simp add: wrapKids_def)
  show ?thesis unfolding ab 1 2 by (intro exI[of _ A] exI[of _ B]) simp
qed

lemma wrap_collect_sets:
  assumes P: "getNodeByPath t c = Some P" and u: "updateKids c (wrapKids w s e) t = Some t'"
    and se: "s \<le> e"
  shows "set (collect L t) \<subseteq> set (collect L t') \<union> set (L (nid P) (nname P) (map label (kids P)))"
    and "set (collect L t') \<subseteq> set (collect L t)
           \<union> set (L (nid P) (nname P) (map label (wrapKids w s e (kids P))))
           \<union> set (L w ''codeBlock'' (map label (take (e - s) (drop s (kids P)))))"
    and "set (L w ''codeBlock'' (map label (take (e - s) (drop s (kids P))))) \<subseteq> set (collect L t')"
proof -
  from wrap_collect[OF P u se, of L] obtain A B where
    ab: "collect L t = A @ L (nid P) (nname P) (map label (kids P))
                   @ concat (map (collect L) (take s (kids P)))
                   @ concat (map (collect L) (take (e - s) (drop s (kids P))))
                   @ concat (map (collect L) (drop e (kids P))) @ B"
     "collect L t' = A @ L (nid P) (nname P) (map label (wrapKids w s e (kids P)))
                   @ concat (map (collect L) (take s (kids P)))
                   @ L w ''codeBlock'' (map label (take (e - s) (drop s (kids P))))
                   @ concat (map (collect L) (take (e - s) (drop s (kids P))))
                   @ concat (map (collect L) (drop e (kids P))) @ B" by blast
  show "set (collect L t) \<subseteq> set (collect L t') \<union> set (L (nid P) (nname P) (map label (kids P)))"
    unfolding ab set_append by blast
  show "set (collect L t') \<subseteq> set (collect L t)
           \<union> set (L (nid P) (nname P) (map label (wrapKids w s e (kids P))))
           \<union> set (L w ''codeBlock'' (map label (take (e - s) (drop s (kids P)))))"
    unfolding ab set_append by blast
  show "set (L w ''codeBlock'' (map label (take (e - s) (drop s (kids P))))) \<subseteq> set (collect L t')"
    unfolding ab set_append by blast
qed

lemma wrap_ids:
  assumes P: "getNodeByPath t c = Some P" and u: "updateKids c (wrapKids w s e) t = Some t'"
    and se: "s \<le> e"
  shows "\<exists>X Y. ids t = X @ Y \<and> ids t' = X @ w # Y"
proof -
  from wrap_collect[OF P u se, of "\<lambda>i n ls. [i]"] obtain A B where
    ab: "ids t = A @ [nid P]
                   @ concat (map ids (take s (kids P)))
                   @ concat (map ids (take (e - s) (drop s (kids P))))
                   @ concat (map ids (drop e (kids P))) @ B"
     "ids t' = A @ [nid P]
                   @ concat (map ids (take s (kids P)))
                   @ [w]
                   @ concat (map ids (take (e - s) (drop s (kids P))))
                   @ concat (map ids (drop e (kids P))) @ B"
    unfolding ids_collect[symmetric, abs_def] by blast
  show ?thesis
    unfolding ab
    by (intro exI[of _ "A @ [nid P] @ concat (map ids (take s (kids P)))"]
              exI[of _ "concat (map ids (take (e - s) (drop s (kids P)))) @ concat (map ids (drop e (kids P))) @ B"])
       simp
qed

lemma wrap_ids_facts:
  assumes P: "getNodeByPath t c = Some P" and u: "updateKids c (wrapKids w s e) t = Some t'"
    and se: "s \<le> e" and d: "distinct (ids t)" and fresh: "w \<notin> set (ids t)"
  shows "distinct (ids t')" and "set (ids t') = insert w (set (ids t))" and "subseq (ids t) (ids t')"
proof -
  from wrap_ids[OF P u se] obtain X Y where xy: "ids t = X @ Y" "ids t' = X @ w # Y" by blast
  show "distinct (ids t')" using d fresh unfolding xy by auto
  show "set (ids t') = insert w (set (ids t))" unfolding xy by auto
  show "subseq (ids t) (ids t')" unfolding xy by (intro list_emb_append_mono) auto
qed

lemma stripKids_Cons_in:
  "w \<in> S \<Longrightarrow> stripKids S (Node w n xs # rest) = stripKids S xs @ stripKids S rest"
  by (simp add: stripKids_def)

lemma wrap_strip:
  assumes P: "getNodeByPath t c = Some P" and u: "updateKids c (wrapKids w s e) t = Some t'"
    and se: "s \<le> e" and w: "w \<in> S"
  shows "strip S t' = strip S t"
proof (rule strip_updateKids[OF P u])
  have "stripKids S (wrapKids w s e (kids P)) =
      stripKids S (take s (kids P)) @ stripKids S (take (e - s) (drop s (kids P))) @ stripKids S (drop e (kids P))"
    using w by (simp add: wrapKids_def stripKids_Cons_in)
  also have "\<dots> = stripKids S (take s (kids P) @ take (e - s) (drop s (kids P)) @ drop e (kids P))"
    by simp
  also have "\<dots> = stripKids S (kids P)" by (simp only: take_mid_drop[OF se])
  finally show "stripKids S (wrapKids w s e (kids P)) = stripKids S (kids P)" .
qed

lemma wrap_agree:
  assumes P: "getNodeByPath t c = Some P" and u: "updateKids c (wrapKids w s e) t = Some t'"
    and se: "s \<le> e" "e \<le> length (kids P)"
  shows "agreeUpTo (c @ [s]) t t'"
  using se by (intro updateKids_agreeUpTo[OF P u]) (simp_all add: label_def wrapKids_def)

lemma wrap_at:
  assumes P: "getNodeByPath t c = Some P" and u: "updateKids c (wrapKids w s e) t = Some t'"
    and se: "s \<le> e" "e \<le> length (kids P)"
  shows "getNodeByPath t' (c @ [s]) = Some (Node w ''codeBlock'' (take (e - s) (drop s (kids P))))"
proof -
  from updateKids_get[OF u P] have "getNodeByPath t' c = Some (Node (nid P) (nname P) (wrapKids w s e (kids P)))" .
  then show ?thesis using se by (simp add: getNodeByPath_snoc wrapKids_def nth_append)
qed

lemma wrap_shape:
  assumes P: "getNodeByPath t c = Some P" and u: "updateKids c (wrapKids w s e) t = Some t'"
    and se: "s \<le> e" and np: "nname P \<noteq> ''codeBlock''"
  shows "(w, ''codeBlock'', map nid (take (e - s) (drop s (kids P)))) \<in> set (shapeFacts t')"
    and "\<forall>f\<in>set (shapeFacts t). fst (snd f) = ''codeBlock'' \<longrightarrow> f \<in> set (shapeFacts t')"
proof -
  note s = wrap_collect_sets[OF P u se, of "\<lambda>i n ls. [(i, n, map fst ls)]", folded shapeFacts_def]
  from s(3) show "(w, ''codeBlock'', map nid (take (e - s) (drop s (kids P)))) \<in> set (shapeFacts t')"
    by simp
  from s(1) np show "\<forall>f\<in>set (shapeFacts t). fst (snd f) = ''codeBlock'' \<longrightarrow> f \<in> set (shapeFacts t')"
    by auto
qed

lemma set_pairs_take: "set (pairs (take n xs)) \<subseteq> set (pairs xs)"
  using set_pairs_append[of "take n xs" "drop n xs"] by auto

lemma set_pairs_drop: "set (pairs (drop n xs)) \<subseteq> set (pairs xs)"
  using set_pairs_append[of "take n xs" "drop n xs"] by auto

lemma set_pairs_Cons:
  "set (pairs (x # ys)) = set (pairs ys) \<union> (if ys \<noteq> [] then {(x, hd ys)} else {})"
  by (cases ys) auto

lemma set_pairs_insert:
  "set (pairs (X @ w # Y)) =
      set (pairs X) \<union> set (pairs Y)
      \<union> (if X \<noteq> [] then {(last X, w)} else {}) \<union> (if Y \<noteq> [] then {(w, hd Y)} else {})"
  unfolding set_pairs_append[of X "w # Y"] set_pairs_Cons[of w Y] by auto

lemma wrap_adj:
  assumes P: "getNodeByPath t c = Some P" and u: "updateKids c (wrapKids w s e) t = Some t'"
    and se: "s \<le> e" and fresh: "w \<notin> set (ids t)"
  shows "(a, b) \<in> set (adjFacts t') \<Longrightarrow> a \<noteq> w \<Longrightarrow> b \<noteq> w \<Longrightarrow> (a, b) \<in> set (adjFacts t)"
    and "(w, b) \<in> set (adjFacts t') \<Longrightarrow> e < length (kids P) \<and> b = nid (kids P ! e)"
proof -
  let ?ks = "kids P"
  let ?X = "map nid (take s ?ks)" and ?Y = "map nid (drop e ?ks)"
  let ?mid = "take (e - s) (drop s ?ks)"
  note s = wrap_collect_sets[OF P u se, of "\<lambda>i n ls. pairs (map fst ls)", folded adjFacts_def]
  have new: "map nid (wrapKids w s e ?ks) = ?X @ [w] @ ?Y" by (simp add: wrapKids_def)
  have inP: "\<And>p. p \<in> set (pairs (map nid ?ks)) \<Longrightarrow> p \<in> set (adjFacts t)"
    unfolding adjFacts_path using P by blast
  have pX: "set (pairs ?X) \<subseteq> set (pairs (map nid ?ks))"
    using set_pairs_take[of s "map nid ?ks"] by (simp add: take_map)
  have pY: "set (pairs ?Y) \<subseteq> set (pairs (map nid ?ks))"
    using set_pairs_drop[of e "map nid ?ks"] by (simp add: drop_map)
  have pM: "set (pairs (map nid ?mid)) \<subseteq> set (pairs (map nid ?ks))"
  proof -
    have "set (pairs (map nid ?mid)) \<subseteq> set (pairs (map nid (drop s ?ks)))"
      using set_pairs_take[of "e - s" "map nid (drop s ?ks)"] by (simp add: take_map)
    also have "\<dots> \<subseteq> set (pairs (map nid ?ks))"
      using set_pairs_drop[of s "map nid ?ks"] by (simp add: drop_map)
    finally show ?thesis .
  qed
  have cases: "\<And>p. p \<in> set (adjFacts t') \<Longrightarrow>
      p \<in> set (adjFacts t) \<or> p \<in> set (pairs (?X @ [w] @ ?Y))"
  proof -
    fix p assume "p \<in> set (adjFacts t')"
    with s(2) have "p \<in> set (adjFacts t) \<or> p \<in> set (pairs (map fst (map label (wrapKids w s e ?ks))))
        \<or> p \<in> set (pairs (map fst (map label ?mid)))" by blast
    then have "p \<in> set (adjFacts t) \<or> p \<in> set (pairs (map nid (wrapKids w s e ?ks)))
        \<or> p \<in> set (pairs (map nid ?mid))" by simp
    moreover have "p \<in> set (pairs (map nid ?mid)) \<Longrightarrow> p \<in> set (adjFacts t)"
      using pM inP by blast
    ultimately show "p \<in> set (adjFacts t) \<or> p \<in> set (pairs (?X @ [w] @ ?Y))"
      unfolding new by blast
  qed
  have split: "set (pairs (?X @ [w] @ ?Y)) =
      set (pairs ?X) \<union> set (pairs ?Y)
      \<union> (if ?X \<noteq> [] then {(last ?X, w)} else {}) \<union> (if ?Y \<noteq> [] then {(w, hd ?Y)} else {})"
    using set_pairs_insert[of ?X w ?Y] by simp
  have wX: "w \<notin> set ?X" and wY: "w \<notin> set ?Y"
  proof -
    have "set ?X \<subseteq> nid ` set ?ks" "set ?Y \<subseteq> nid ` set ?ks"
      by (auto dest: in_set_takeD in_set_dropD)
    moreover have "nid ` set ?ks \<subseteq> set (ids t)" using kid_in_ids[OF P] by auto
    ultimately show "w \<notin> set ?X" "w \<notin> set ?Y" using fresh by blast+
  qed
  show "(a, b) \<in> set (adjFacts t') \<Longrightarrow> a \<noteq> w \<Longrightarrow> b \<noteq> w \<Longrightarrow> (a, b) \<in> set (adjFacts t)"
  proof -
    assume h: "(a, b) \<in> set (adjFacts t')" "a \<noteq> w" "b \<noteq> w"
    from cases[OF h(1)] show "(a, b) \<in> set (adjFacts t)"
    proof
      assume "(a, b) \<in> set (pairs (?X @ [w] @ ?Y))"
      with h(2,3) have "(a, b) \<in> set (pairs ?X) \<union> set (pairs ?Y)"
        unfolding split by (auto split: if_splits)
      with pX pY inP show ?thesis by blast
    qed simp
  qed
  show "(w, b) \<in> set (adjFacts t') \<Longrightarrow> e < length (kids P) \<and> b = nid (kids P ! e)"
  proof -
    assume h: "(w, b) \<in> set (adjFacts t')"
    from cases[OF h] have "(w, b) \<in> set (pairs (?X @ [w] @ ?Y))"
      using adjFacts_ids[of w b t] fresh by auto
    then have "(w, b) \<in> set (pairs ?X) \<or> (w, b) \<in> set (pairs ?Y)
        \<or> (?X \<noteq> [] \<and> w = last ?X) \<or> (?Y \<noteq> [] \<and> b = hd ?Y)"
      unfolding split by (auto split: if_splits)
    moreover have "(w, b) \<notin> set (pairs ?X)" using set_pairs_mem[of w b ?X] wX by blast
    moreover have "(w, b) \<notin> set (pairs ?Y)" using set_pairs_mem[of w b ?Y] wY by blast
    moreover have "\<not> (?X \<noteq> [] \<and> w = last ?X)" using wX last_in_set[of ?X] by metis
    ultimately have y: "?Y \<noteq> []" "b = hd ?Y" by auto
    from y(1) have el: "e < length ?ks" by simp
    with y(2) show ?thesis by (simp add: hd_map hd_drop_conv_nth)
  qed
qed

lemma wrapKids_fun:
  "(\<lambda>ks. take s ks @ [Node w ''codeBlock'' (take (e - s) (drop s ks))] @ drop e ks) = wrapKids w s e"
  by (simp add: wrapKids_def fun_eq_iff)

lemma wrapKids_fun':
  "(\<lambda>ks. take s ks @ Node w ''codeBlock'' (take (e - s) (drop s ks)) # drop e ks) = wrapKids w s e"
  by (simp add: wrapKids_def fun_eq_iff)

lemma applyBlockGroup_wrap:
  assumes P: "getNodeByPath t c = Some P" and np: "nname P \<noteq> ''codeBlock''"
    and se: "s < e" "e \<le> length (kids P)"
  shows "\<exists>t'. applyBlockGroup (t, acc) (mkRange c s e) =
            Some (t', acc @ [Some (nid (newElement t ''codeBlock''))])
     \<and> updateKids c (wrapKids (nid (newElement t ''codeBlock'')) s e) t = Some t'"
proof -
  let ?w = "nid (newElement t ''codeBlock'')"
  from updateKids_Some[OF P] obtain t' where u: "updateKids c (wrapKids ?w s e) t = Some t'" by blast
  have fb: "findBlock t (Position (range_start (mkRange c s e))) = Some None"
    using P np by (simp add: findBlock_def parentOf_def position_parent_def)
  have fresh: "getPath t ?w = None" using newElement_fresh[of t "''codeBlock''"] by (simp add: getPath_None)
  have wr: "wrap t (mkRange c s e) (newElement t ''codeBlock'') = Some t'"
    using P se fresh u
    by (simp add: wrap_def isFlat_def position_parent_def wrapKids_fun')
  from updateKids_get[OF u P] have g': "getNodeByPath t' c = Some (Node (nid P) (nname P) (wrapKids ?w s e (kids P)))" .
  have na: "nodeAfter t' (range_start (mkRange c s e)) = Some (Some ?w)"
    using g' se by (simp add: nodeAfter_def position_parent_def wrapKids_def nth_append)
  have "applyBlockGroup (t, acc) (mkRange c s e) = Some (t', acc @ [Some ?w])"
    using fb wr na by (simp add: applyBlockGroup_def)
  with u show ?thesis by blast
qed

lemma wrapOK_stable:
  assumes ok: "wrapOK t r'" and ag: "agreeUpTo \<pi> t t1" and ne: "\<pi> \<noteq> []"
    and bf: "lastPos r' < \<pi>"
  shows "wrapOK t1 r' \<and> spanIds t1 r' = spanIds t r'"
proof -
  obtain c' s' e' where r': "r' = (c', s', e')" by (cases r')
  from ok r' obtain P' where P': "s' < e'" "getNodeByPath t c' = Some P'"
    "nname P' \<noteq> ''codeBlock''" "e' \<le> length (kids P')"
    by (auto simp: wrapOK_def split: option.splits)
  have lt: "c' @ [e' - 1] < \<pi>" using bf r' by (simp add: lastPos_def)
  have el: "e' - 1 < length (kids P')" using P'(1,4) by simp
  from agreeUpTo_stable[OF ag ne lt P'(2) el] obtain n' where
    n': "getNodeByPath t1 c' = Some n'" "label n' = label P'" "e' - 1 < length (kids n')"
        "map label (take (Suc (e' - 1)) (kids n')) = map label (take (Suc (e' - 1)) (kids P'))" by auto
  have se: "Suc (e' - 1) = e'" using P'(1) by simp
  from n'(4) have "map fst (map label (take e' (kids n'))) = map fst (map label (take e' (kids P')))"
    unfolding se by simp
  then have tk: "map nid (take e' (kids n')) = map nid (take e' (kids P'))" by simp
  have "map nid (take (e' - s') (drop s' (kids n'))) = drop s' (map nid (take e' (kids n')))"
    by (simp add: drop_take drop_map)
  also have "\<dots> = drop s' (map nid (take e' (kids P')))" by (simp only: tk)
  also have "\<dots> = map nid (take (e' - s') (drop s' (kids P')))" by (simp add: drop_take drop_map)
  finally have ids: "spanIds t1 r' = spanIds t r'" using r' n'(1) P'(2) by (simp add: spanIds_def)
  have "wrapOK t1 r'" using r' n' P' by (auto simp: wrapOK_def label_def)
  with ids show ?thesis by simp
qed

lemma applyBlockGroups_spans:
  "distinct (ids t) \<Longrightarrow> sorted_wrt (\<lambda>a b. lastPos a < firstPos b) ts \<Longrightarrow>
   \<forall>r\<in>set ts. wrapOK t r \<Longrightarrow> \<forall>(a, b)\<in>set (pairs ts). afterPos a \<noteq> firstPos b \<Longrightarrow>
   \<exists>t' ws. applyBlockGroups (t, acc) (rev (map toRange ts)) = Some (t', acc @ rev (map Some ws))
     \<and> length ws = length ts \<and> distinct (ids t') \<and> set (ids t') = set (ids t) \<union> set ws
     \<and> set ws \<inter> set (ids t) = {} \<and> distinct ws \<and> subseq (ids t) (ids t')
     \<and> (\<forall>S. set ws \<subseteq> S \<longrightarrow> strip S t' = strip S t)
     \<and> (\<forall>f\<in>set (shapeFacts t). fst (snd f) = ''codeBlock'' \<longrightarrow> f \<in> set (shapeFacts t'))
     \<and> (\<forall>(w, r)\<in>set (zip ws ts). (w, ''codeBlock'', spanIds t r) \<in> set (shapeFacts t'))
     \<and> (\<forall>a b. (a, b) \<in> set (adjFacts t') \<and> a \<notin> set ws \<and> b \<notin> set ws \<longrightarrow> (a, b) \<in> set (adjFacts t))
     \<and> (\<forall>p\<in>set (pairs ws). p \<notin> set (adjFacts t'))
     \<and> (\<forall>z \<pi>. ts \<noteq> [] \<and> getPath t z = Some \<pi> \<and> \<pi> \<noteq> afterPos (last ts)
           \<longrightarrow> (last ws, z) \<notin> set (adjFacts t'))"
proof (induction ts arbitrary: t acc rule: rev_induct)
  case Nil
  from Nil.prems(1) show ?case by (intro exI[of _ t] exI[of _ "[]"]) simp
next
  case (snoc r ts)
  let ?cb = "''codeBlock''"
  obtain c s e where r: "r = (c, s, e)" by (cases r)
  from snoc.prems(3) r obtain P where P: "s < e" "getNodeByPath t c = Some P"
    "nname P \<noteq> ?cb" "e \<le> length (kids P)"
    by (auto simp: wrapOK_def split: option.splits)
  define w where "w = nid (newElement t ?cb)"
  have fresh: "w \<notin> set (ids t)" unfolding w_def by (rule newElement_fresh)
  have se: "s \<le> e" using P(1) by simp
  from applyBlockGroup_wrap[OF P(2,3,1,4), of acc] obtain t1 where
    st: "applyBlockGroup (t, acc) (mkRange c s e) = Some (t1, acc @ [Some w])"
    and u: "updateKids c (wrapKids w s e) t = Some t1" unfolding w_def by blast
  note idf = wrap_ids_facts[OF P(2) u se snoc.prems(1) fresh]
  note ag = wrap_agree[OF P(2) u se P(4)]
  note at = wrap_at[OF P(2) u se P(4)]
  note sh = wrap_shape[OF P(2) u se P(3)]
  note adj = wrap_adj[OF P(2) u se fresh]
  have fp: "firstPos r = c @ [s]" using r by (simp add: firstPos_def)
  from snoc.prems(2) have srt: "sorted_wrt (\<lambda>a b. lastPos a < firstPos b) ts"
    and bf: "\<forall>r'\<in>set ts. lastPos r' < c @ [s]"
    by (auto simp: sorted_wrt_append fp)
  have stab: "\<forall>r'\<in>set ts. wrapOK t1 r' \<and> spanIds t1 r' = spanIds t r'"
  proof
    fix r' assume r': "r' \<in> set ts"
    with snoc.prems(3) have "wrapOK t r'" by simp
    from wrapOK_stable[OF this ag _ ] bf r' show "wrapOK t1 r' \<and> spanIds t1 r' = spanIds t r'" by simp
  qed
  then have ok1: "\<forall>r'\<in>set ts. wrapOK t1 r'" by simp
  have pr1: "\<forall>(a, b)\<in>set (pairs ts). afterPos a \<noteq> firstPos b"
    using snoc.prems(4) by (auto simp: set_pairs_append)
  from snoc.IH[OF idf(1) srt ok1 pr1, of "acc @ [Some w]"] obtain t' ws where
    ih: "applyBlockGroups (t1, acc @ [Some w]) (rev (map toRange ts)) = Some (t', (acc @ [Some w]) @ rev (map Some ws))"
      "length ws = length ts" "distinct (ids t')" "set (ids t') = set (ids t1) \<union> set ws"
      "set ws \<inter> set (ids t1) = {}" "distinct ws" "subseq (ids t1) (ids t')"
      "\<forall>S. set ws \<subseteq> S \<longrightarrow> strip S t' = strip S t1"
      "\<forall>f\<in>set (shapeFacts t1). fst (snd f) = ?cb \<longrightarrow> f \<in> set (shapeFacts t')"
      "\<forall>(w, r)\<in>set (zip ws ts). (w, ?cb, spanIds t1 r) \<in> set (shapeFacts t')"
      "\<forall>a b. (a, b) \<in> set (adjFacts t') \<and> a \<notin> set ws \<and> b \<notin> set ws \<longrightarrow> (a, b) \<in> set (adjFacts t1)"
      "\<forall>p\<in>set (pairs ws). p \<notin> set (adjFacts t')"
      "\<forall>z \<pi>. ts \<noteq> [] \<and> getPath t1 z = Some \<pi> \<and> \<pi> \<noteq> afterPos (last ts)
           \<longrightarrow> (last ws, z) \<notin> set (adjFacts t')"
    by blast
  let ?ws = "ws @ [w]"
  have wnot: "w \<notin> set ws" using ih(5) idf(2) by auto
  have c1: "applyBlockGroups (t, acc) (rev (map toRange (ts @ [r]))) = Some (t', acc @ rev (map Some ?ws))"
    using st ih(1) r by (simp add: toRange_def)
  have c2: "length ?ws = length (ts @ [r])" using ih(2) by simp
  have c4: "set (ids t') = set (ids t) \<union> set ?ws" using ih(4) idf(2) by auto
  have c5: "set ?ws \<inter> set (ids t) = {}" using ih(5) idf(2) fresh by auto
  have c6: "distinct ?ws" using ih(6) wnot by simp
  have c7: "subseq (ids t) (ids t')" using idf(3) ih(7) by (rule subseq_order.order_trans)
  have c8: "\<forall>S. set ?ws \<subseteq> S \<longrightarrow> strip S t' = strip S t"
  proof (intro allI impI)
    fix S assume S: "set ?ws \<subseteq> S"
    then have "strip S t' = strip S t1" using ih(8) by simp
    also have "\<dots> = strip S t" using S by (intro wrap_strip[OF P(2) u se]) simp
    finally show "strip S t' = strip S t" .
  qed
  have c9: "\<forall>f\<in>set (shapeFacts t). fst (snd f) = ?cb \<longrightarrow> f \<in> set (shapeFacts t')"
    using sh(2) ih(9) by blast
  have wsh: "(w, ?cb, spanIds t r) \<in> set (shapeFacts t')"
  proof -
    have "(w, ?cb, spanIds t r) \<in> set (shapeFacts t1)" using sh(1) r P(2) by (simp add: spanIds_def)
    with ih(9) show ?thesis by auto
  qed
  have c10: "\<forall>(w, r)\<in>set (zip ?ws (ts @ [r])). (w, ?cb, spanIds t r) \<in> set (shapeFacts t')"
  proof -
    have "\<And>w' r'. (w', r') \<in> set (zip ws ts) \<Longrightarrow> (w', ?cb, spanIds t r') \<in> set (shapeFacts t')"
    proof -
      fix w' r' assume m: "(w', r') \<in> set (zip ws ts)"
      then have "r' \<in> set ts" by (rule set_zip_rightD)
      with stab have "spanIds t1 r' = spanIds t r'" by simp
      with ih(10) m show "(w', ?cb, spanIds t r') \<in> set (shapeFacts t')" by fastforce
    qed
    with wsh show ?thesis using ih(2) by auto
  qed
  have c11: "\<forall>a b. (a, b) \<in> set (adjFacts t') \<and> a \<notin> set ?ws \<and> b \<notin> set ?ws \<longrightarrow> (a, b) \<in> set (adjFacts t)"
  proof (intro allI impI)
    fix a b assume h: "(a, b) \<in> set (adjFacts t') \<and> a \<notin> set ?ws \<and> b \<notin> set ?ws"
    with ih(11) have "(a, b) \<in> set (adjFacts t1)" by simp
    from adj(1)[OF this] h show "(a, b) \<in> set (adjFacts t)" by simp
  qed
  have gw: "getPath t1 w = Some (c @ [s])" using getPath_unique[OF idf(1) at] by simp
  have c12: "\<forall>p\<in>set (pairs ?ws). p \<notin> set (adjFacts t')"
  proof
    fix p assume p: "p \<in> set (pairs ?ws)"
    then consider "p \<in> set (pairs ws)" | "ws \<noteq> []" "p = (last ws, w)"
      by (auto simp: set_pairs_append split: if_splits)
    then show "p \<notin> set (adjFacts t')"
    proof cases
      case 1 with ih(12) show ?thesis by simp
    next
      case 2
      then have tsne: "ts \<noteq> []" using ih(2) by auto
      then have "(last ts, r) \<in> set (pairs (ts @ [r]))" by (simp add: set_pairs_append)
      with snoc.prems(4) have "afterPos (last ts) \<noteq> firstPos r" by blast
      then have "c @ [s] \<noteq> afterPos (last ts)" using fp by simp
      with ih(13) tsne gw have "(last ws, w) \<notin> set (adjFacts t')" by blast
      with 2 show ?thesis by simp
    qed
  qed
  have c13: "\<forall>z \<pi>. ts @ [r] \<noteq> [] \<and> getPath t z = Some \<pi> \<and> \<pi> \<noteq> afterPos (last (ts @ [r]))
           \<longrightarrow> (last ?ws, z) \<notin> set (adjFacts t')"
  proof (intro allI impI)
    fix z \<pi> assume h: "ts @ [r] \<noteq> [] \<and> getPath t z = Some \<pi> \<and> \<pi> \<noteq> afterPos (last (ts @ [r]))"
    then have z: "getPath t z = Some \<pi>" "\<pi> \<noteq> c @ [e]" using r by (simp_all add: afterPos_def)
    have zt: "z \<in> set (ids t)" using z(1) getPath_None[of t z] by auto
    have n1: "(w, z) \<notin> set (adjFacts t1)"
    proof
      assume "(w, z) \<in> set (adjFacts t1)"
      from adj(2)[OF this] have el: "e < length (kids P)" "z = nid (kids P ! e)" by auto
      from el(1) P(2) have "getNodeByPath t (c @ [e]) = Some (kids P ! e)" by (simp add: getNodeByPath_snoc)
      from getPath_unique[OF snoc.prems(1) this] el(2) z show False by simp
    qed
    have "z \<notin> set ws" using zt ih(5) idf(2) by auto
    with ih(11) wnot n1 have "(w, z) \<notin> set (adjFacts t')" by blast
    then show "(last ?ws, z) \<notin> set (adjFacts t')" by simp
  qed
  show ?case
    using c1 c2 ih(3) c4 c5 c6 c7 c8 c9 c10 c11 c12 c13
    by (intro exI[of _ t'] exI[of _ ?ws] conjI)
qed

lemma nextSibling_adj:
  assumes "nextSibling t a = Some b"
  shows "(a, b) \<in> set (adjFacts t)"
proof -
  from assms obtain par p where par: "parent t a = Some par" "getPath t a = Some p"
    "Suc (last p) < length (kids par)" "b = nid (kids par ! Suc (last p))"
    by (auto simp: nextSibling_def split: option.splits if_splits)
  from parentD[OF par(1)] par(2) have p: "p \<noteq> []" "getNodeByPath t (butlast p) = Some par" by auto
  from getPath_sound[OF par(2)] obtain n where n: "getNodeByPath t p = Some n" "nid n = a" by auto
  have "getNodeByPath t (butlast p @ [last p]) = Some n" using n(1) p(1) by simp
  with p(2) par(3) have "kids par ! last p = n" by (simp add: getNodeByPath_snoc split: if_splits)
  with n(2) par(3,4) have "(a, b) \<in> set (pairs (map nid (kids par)))"
    unfolding pairs_nth by (intro exI[of _ "last p"]) simp
  with p(2) show ?thesis unfolding adjFacts_path by blast
qed

lemma mergeSteps_chain:
  "\<forall>p\<in>set (pairs (cur # rest)). nextSibling t (fst p) \<noteq> Some (snd p) \<Longrightarrow>
   mergeSteps (t, Some cur) (map Some rest) = Some (t, Some (last (cur # rest)))"
proof (induction rest arbitrary: cur)
  case Nil then show ?case by simp
next
  case (Cons x rest)
  from Cons.prems have n: "nextSibling t cur \<noteq> Some x"
    and r: "\<forall>p\<in>set (pairs (x # rest)). nextSibling t (fst p) \<noteq> Some (snd p)" by auto
  from n have "mergeStep (t, Some cur) (Some x) = Some (t, Some x)" by (simp add: mergeStep_def)
  with Cons.IH[OF r] show ?case by simp
qed

lemma siblingRun_ids:
  "distinct (ids t) \<Longrightarrow> siblingRun t g \<Longrightarrow> g \<noteq> [] \<Longrightarrow> getPath t (hd g) = Some (c @ [s]) \<Longrightarrow>
   getNodeByPath t c = Some par \<Longrightarrow> map nid (take (length g) (drop s (kids par))) = g"
proof (induction t g arbitrary: s rule: siblingRun.induct)
  case (1 t) then show ?case by simp
next
  case (2 t b)
  from getPath_sound[OF 2(4)[simplified]] obtain n where n: "getNodeByPath t (c @ [s]) = Some n" "nid n = b" by auto
  with 2(5) have "s < length (kids par)" "kids par ! s = n" by (auto simp: getNodeByPath_snoc split: if_splits)
  with n(2) show ?case by (simp add: take_Suc_conv_app_nth hd_drop_conv_nth take_Suc)
next
  case (3 t b x bs)
  from 3(3) have ns: "nextSibling t b = Some x" and run: "siblingRun t (x # bs)" by auto
  from 3(5) have gb: "getPath t b = Some (c @ [s])" by simp
  from nextSibling_getPath[OF 3(2) gb ns] have gx: "getPath t (hd (x # bs)) = Some (c @ [Suc s])" by simp
  from 3(1)[OF 3(2) run _ gx 3(6)] have ih: "map nid (take (length (x # bs)) (drop (Suc s) (kids par))) = x # bs" by simp
  from getPath_sound[OF gb] obtain n where n: "getNodeByPath t (c @ [s]) = Some n" "nid n = b" by auto
  with 3(6) have sl: "s < length (kids par)" "kids par ! s = n" by (auto simp: getNodeByPath_snoc split: if_splits)
  have "drop s (kids par) = n # drop (Suc s) (kids par)"
    using Cons_nth_drop_Suc[OF sl(1), symmetric] sl(2) by simp
  then have "map nid (take (length (b # x # bs)) (drop s (kids par))) =
     nid n # map nid (take (length (x # bs)) (drop (Suc s) (kids par)))" by simp
  with ih n(2) show ?case by simp
qed

lemma guard_parent:
  assumes d: "distinct (ids t)" and g: "checkCanBeBlocked hostCheck t b = Some True"
  shows "\<exists>par. parent t b = Some par \<and> nname par \<noteq> ''codeBlock''"
proof -
  from g obtain par ctx name where par: "parent t b = Some par" "contextOf t (nid par) = Some ctx"
    "nameOf t b = Some name" "checkChild hostCheck ctx ''codeBlock''"
    by (auto simp: checkCanBeBlocked_def Let_def split: bind_splits)
  from parentD[OF par(1)] obtain p where
    p: "getPath t b = Some p" "p \<noteq> []" "getNodeByPath t (butlast p) = Some par" by auto
  from getPath_unique[OF d p(3)] par(2) have ctx: "ctx = namesAlong t (butlast p)"
    by (simp add: contextOf_def)
  have "nname par \<noteq> ''codeBlock''"
  proof
    assume "nname par = ''codeBlock''"
    with namesAlong_last[OF p(3)] suffix_joinNames[of "namesAlong t (butlast p)"]
    have "endsWith ctx ''codeBlock''" by (simp add: endsWith_def ctx)
    with par(4) show False by (simp add: checkChild_def)
  qed
  with par(1) show ?thesis by simp
qed

lemma run_facts:
  assumes d: "distinct (ids t)"
    and par: "\<forall>b\<in>set bs. \<exists>par. parent t b = Some par \<and> nname par \<noteq> ''codeBlock''"
    and g: "g \<in> set (maximalRuns t bs)"
  shows "\<exists>c s P. getPath t (hd g) = Some (c @ [s]) \<and> getNodeByPath t c = Some P
       \<and> nname P \<noteq> ''codeBlock''
       \<and> spanOf t g = (c, s, s + length g)
       \<and> groupRange t g = toRange (spanOf t g)
       \<and> getPath t (last g) = Some (c @ [s + length g - 1])
       \<and> s + length g \<le> length (kids P) \<and> g \<noteq> []
       \<and> wrapOK t (spanOf t g) \<and> spanIds t (spanOf t g) = g"
proof -
  from maximalRuns_nonempty[OF g] have ne: "g \<noteq> []" .
  from maximalRuns_runs[OF g] have run: "siblingRun t g" .
  from maximalRuns_subset[OF g] ne have "hd g \<in> set bs" by auto
  with par obtain P where P: "parent t (hd g) = Some P" "nname P \<noteq> ''codeBlock''" by auto
  from span_facts[OF d ne run P(1)] obtain c s where
    f: "getPath t (hd g) = Some (c @ [s])" "getNodeByPath t c = Some P"
       "spanOf t g = (c, s, s + length g)" "groupRange t g = toRange (spanOf t g)"
       "getPath t (last g) = Some (lastPos (spanOf t g))" "s + length g \<le> length (kids P)" by blast
  have lp: "getPath t (last g) = Some (c @ [s + length g - 1])" using f(5,3) by (simp add: lastPos_def)
  have ok: "wrapOK t (spanOf t g)" using f(2,3,6) P(2) ne by (simp add: wrapOK_def)
  have "spanIds t (spanOf t g) = g"
    using siblingRun_ids[OF d run ne f(1) f(2)] f(2,3) by (simp add: spanIds_def)
  with f lp ok P(2) ne show ?thesis by blast
qed

lemma applyBlock_wraps:
  assumes d: "distinct (ids t)" and ne: "bs \<noteq> []" and ord: "docOrdered t bs"
    and par: "\<forall>b\<in>set bs. \<exists>par. parent t b = Some par \<and> nname par \<noteq> ''codeBlock''"
  shows "\<exists>t' ws. applyBlock t bs = Some t' \<and> length ws = length (maximalRuns t bs)
     \<and> distinct (ids t') \<and> set (ids t') = set (ids t) \<union> set ws
     \<and> set ws \<inter> set (ids t) = {} \<and> distinct ws \<and> subseq (ids t) (ids t')
     \<and> (\<forall>S. set ws \<subseteq> S \<longrightarrow> strip S t' = strip S t)
     \<and> (\<forall>f\<in>set (shapeFacts t). fst (snd f) = ''codeBlock'' \<longrightarrow> f \<in> set (shapeFacts t'))
     \<and> (\<forall>(w, g)\<in>set (zip ws (maximalRuns t bs)). (w, ''codeBlock'', g) \<in> set (shapeFacts t'))
     \<and> (\<forall>p\<in>set (pairs ws). p \<notin> set (adjFacts t'))
     \<and> (\<forall>a b. (a, b) \<in> set (adjFacts t') \<and> a \<notin> set ws \<and> b \<notin> set ws \<longrightarrow> (a, b) \<in> set (adjFacts t))"
proof -
  let ?runs = "maximalRuns t bs"
  let ?ts = "map (spanOf t) ?runs"
  let ?P = "\<lambda>x y. the (getPath t x) < the (getPath t y)"
  note facts = run_facts[OF d par]
  have pn: "\<forall>b\<in>set bs. parent t b \<noteq> None" using par by auto
  have rg: "getRangesOfBlockGroups t bs = Some (map (groupRange t) ?runs)"
    by (rule getRanges_runs[OF pn])
  have "\<And>g. g \<in> set ?runs \<Longrightarrow> toRange (spanOf t g) = groupRange t g"
  proof -
    fix g assume "g \<in> set ?runs"
    from facts[OF this] show "toRange (spanOf t g) = groupRange t g" by auto
  qed
  then have rs: "map toRange ?ts = map (groupRange t) ?runs" by simp
  have ok: "\<forall>r\<in>set ?ts. wrapOK t r" using facts by auto
  have "sorted_wrt ?P (concat ?runs)" using ord by (simp add: concat_maximalRuns docOrdered_def)
  from sorted_wrt_concat_blocks[OF this]
  have sb: "sorted_wrt (\<lambda>g h. \<forall>x\<in>set g. \<forall>y\<in>set h. ?P x y) ?runs" .
  have "sorted_wrt (\<lambda>g h. lastPos (spanOf t g) < firstPos (spanOf t h)) ?runs"
  proof (rule sorted_wrt_mono_rel[OF _ sb])
    fix g h assume gh: "g \<in> set ?runs" "h \<in> set ?runs" "\<forall>x\<in>set g. \<forall>y\<in>set h. ?P x y"
    from facts[OF gh(1)] obtain cg sg where
      fg: "getPath t (last g) = Some (cg @ [sg + length g - 1])" "spanOf t g = (cg, sg, sg + length g)" "g \<noteq> []"
      by blast
    from facts[OF gh(2)] obtain c s where
      fh: "getPath t (hd h) = Some (c @ [s])" "spanOf t h = (c, s, s + length h)" "h \<noteq> []" by blast
    from gh(3) fg(3) fh(3) have "?P (last g) (hd h)" by simp
    with fg fh show "lastPos (spanOf t g) < firstPos (spanOf t h)"
      by (simp add: lastPos_def firstPos_def)
  qed
  then have srt: "sorted_wrt (\<lambda>a b. lastPos a < firstPos b) ?ts" by (simp add: sorted_wrt_map)
  have nadj: "\<forall>(a, b)\<in>set (pairs ?ts). afterPos a \<noteq> firstPos b"
  proof -
    have "\<And>a b. (a, b) \<in> set (pairs ?ts) \<Longrightarrow> afterPos a \<noteq> firstPos b"
    proof -
      fix a b assume "(a, b) \<in> set (pairs ?ts)"
      then obtain i where i: "Suc i < length ?runs" "a = spanOf t (?runs ! i)" "b = spanOf t (?runs ! Suc i)"
        unfolding pairs_nth by auto
      let ?g = "?runs ! i" and ?h = "?runs ! Suc i"
      have gm: "?g \<in> set ?runs" and hm: "?h \<in> set ?runs" using i(1) by auto
      from facts[OF gm] obtain cg sg Pg where
        fg: "getPath t (last ?g) = Some (cg @ [sg + length ?g - 1])" "spanOf t ?g = (cg, sg, sg + length ?g)"
            "?g \<noteq> []" by blast
      from facts[OF hm] obtain c s where
        fh: "getPath t (hd ?h) = Some (c @ [s])" "spanOf t ?h = (c, s, s + length ?h)" by blast
      show "afterPos a \<noteq> firstPos b"
      proof
        assume "afterPos a = firstPos b"
        with i fg fh have eq: "cg = c" "s = sg + length ?g" by (simp_all add: afterPos_def firstPos_def)
        have lg: "0 < length ?g" using fg(3) by simp
        from getPath_sound[OF fg(1)] obtain n where n: "getNodeByPath t (cg @ [sg + length ?g - 1]) = Some n"
          "nid n = last ?g" by auto
        from getPath_sound[OF fh(1)] obtain m where m: "getNodeByPath t (c @ [s]) = Some m" "nid m = hd ?h" by auto
        have "Suc (sg + length ?g - 1) = s" using eq lg by simp
        with nextSibling_path[OF d n(1)] m eq n(2) have "nextSibling t (last ?g) = Some (hd ?h)" by simp
        with maximalRuns_maximal[OF i(1)] show False by simp
      qed
    qed
    then show ?thesis by auto
  qed
  from applyBlockGroups_spans[OF d srt ok nadj, of "[]"] obtain t' ws where
    w: "applyBlockGroups (t, []) (rev (map toRange ?ts)) = Some (t', [] @ rev (map Some ws))"
      "length ws = length ?ts" "distinct (ids t')" "set (ids t') = set (ids t) \<union> set ws"
      "set ws \<inter> set (ids t) = {}" "distinct ws" "subseq (ids t) (ids t')"
      "\<forall>S. set ws \<subseteq> S \<longrightarrow> strip S t' = strip S t"
      "\<forall>f\<in>set (shapeFacts t). fst (snd f) = ''codeBlock'' \<longrightarrow> f \<in> set (shapeFacts t')"
      "\<forall>(w, r)\<in>set (zip ws ?ts). (w, ''codeBlock'', spanIds t r) \<in> set (shapeFacts t')"
      "\<forall>p\<in>set (pairs ws). p \<notin> set (adjFacts t')"
      "\<forall>a b. (a, b) \<in> set (adjFacts t') \<and> a \<notin> set ws \<and> b \<notin> set ws \<longrightarrow> (a, b) \<in> set (adjFacts t)"
    by blast
  have ab: "applyBlockGroups (t, []) (rev (map (groupRange t) ?runs)) = Some (t', rev (map Some ws))"
    using w(1) by (simp only: rs append_Nil)
  have wne: "ws \<noteq> []" using w(2) ne by auto
  then obtain w0 wr where ws: "ws = w0 # wr" by (cases ws) auto
  have "\<forall>p\<in>set (pairs (w0 # wr)). nextSibling t' (fst p) \<noteq> Some (snd p)"
  proof
    fix p assume "p \<in> set (pairs (w0 # wr))"
    with w(11) ws have "p \<notin> set (adjFacts t')" by simp
    with nextSibling_adj[of t' "fst p" "snd p"] show "nextSibling t' (fst p) \<noteq> Some (snd p)" by auto
  qed
  from mergeSteps_chain[OF this] have "reduceMerge t' (map Some ws) = Some t'"
    by (simp add: reduceMerge_def ws)
  with rg ab have app: "applyBlock t bs = Some t'" by (simp add: applyBlock_def rev_map)
  have sh: "\<forall>(w, g)\<in>set (zip ws ?runs). (w, ''codeBlock'', g) \<in> set (shapeFacts t')"
  proof -
    have "\<And>w' g. (w', g) \<in> set (zip ws ?runs) \<Longrightarrow> (w', ''codeBlock'', g) \<in> set (shapeFacts t')"
    proof -
      fix w' g assume m: "(w', g) \<in> set (zip ws ?runs)"
      then have g: "g \<in> set ?runs" by (rule set_zip_rightD)
      from m have "(w', spanOf t g) \<in> set (zip ws ?ts)"
        by (auto simp: in_set_zip)
      with w(10) have "(w', ''codeBlock'', spanIds t (spanOf t g)) \<in> set (shapeFacts t')" by fastforce
      with facts[OF g] show "(w', ''codeBlock'', g) \<in> set (shapeFacts t')" by auto
    qed
    then show ?thesis by auto
  qed
  show ?thesis
    using app w(2,3,4,5,6,7,8,9,11,12) sh
    by (intro exI[of _ t'] exI[of _ ws]) simp
qed

lemma subseq_pair_iff: "subseq [x, y] zs \<longleftrightarrow> (\<exists>us vs. zs = us @ x # vs \<and> y \<in> set vs)"
proof
  assume "subseq [x, y] zs"
  from list_emb_ConsD[OF this] obtain us v vs where "zs = us @ v # vs" "x = v" "subseq [y] vs" by blast
  then show "\<exists>us vs. zs = us @ x # vs \<and> y \<in> set vs" by (auto simp: subseq_singleton_left)
next
  assume "\<exists>us vs. zs = us @ x # vs \<and> y \<in> set vs"
  then obtain us vs where zs: "zs = us @ x # vs" "y \<in> set vs" by blast
  then have "subseq [x, y] (x # vs)" by (simp add: subseq_singleton_left)
  then show "subseq [x, y] zs" unfolding zs(1) by (rule list_emb_append2)
qed

lemma subseq_pair_distinct:
  assumes d: "distinct zs" and s: "subseq [x, y] zs"
  shows "x \<noteq> y" and "\<not> subseq [y, x] zs"
proof -
  from s obtain us vs where zs: "zs = us @ x # vs" "y \<in> set vs" unfolding subseq_pair_iff by blast
  from d zs show "x \<noteq> y" by auto
  show "\<not> subseq [y, x] zs"
  proof
    assume "subseq [y, x] zs"
    then obtain us' vs' where zs': "zs = us' @ y # vs'" "x \<in> set vs'" unfolding subseq_pair_iff by blast
    from zs'(2) obtain a b where vs': "vs' = a @ x # b" by (auto simp: in_set_conv_decomp)
    from zs(2) obtain a' b' where vs: "vs = a' @ y # b'" by (auto simp: in_set_conv_decomp)
    have 1: "zs = (us' @ y # a) @ x # b" using zs'(1) vs' by simp
    have 2: "zs = us @ x # vs" by (rule zs(1))
    have dx: "x \<notin> set (us' @ y # a)" "x \<notin> set b" "x \<notin> set us" "x \<notin> set vs"
      using d unfolding 1 using d[unfolded 2] by auto
    from 1 2 have "(us' @ y # a) @ x # b = us @ x # vs" by simp
    with dx have "us' @ y # a = us" by (metis append_Cons_eq_iff)
    then have "y \<in> set us" by auto
    with d zs show False by auto
  qed
qed

lemma ids_kid_subseq: "k < length (kids t) \<Longrightarrow> subseq (ids (kids t ! k)) (ids t)"
proof -
  assume k: "k < length (kids t)"
  have "ids t = nid t # concat (map ids (take k (kids t))) @ ids (kids t ! k) @ concat (map ids (drop (Suc k) (kids t)))"
    using concat_map_nth[OF k, of ids] by (cases t) simp
  then obtain A B where "ids t = A @ ids (kids t ! k) @ B"
    by (metis append_Cons)
  then show ?thesis by (metis list_emb_append2 subseq_rev_drop_many subseq_order.order_refl list_emb_prefix)
qed

lemma getPath_kid:
  assumes d: "distinct (ids t)" and g: "getPath t x = Some (k # p)"
  shows "k < length (kids t) \<and> getPath (kids t ! k) x = Some p \<and> x \<in> set (ids (kids t ! k))"
proof -
  from getPath_sound[OF g] obtain n where n: "getNodeByPath t (k # p) = Some n" "nid n = x" by auto
  then have k: "k < length (kids t)" and gn: "getNodeByPath (kids t ! k) p = Some n"
    by (auto split: if_splits)
  from getPath_unique[OF distinct_kids(1)[OF d k] gn] n(2) have "getPath (kids t ! k) x = Some p" by simp
  moreover have "x \<in> set (ids (kids t ! k))" using getNodeByPath_ids[OF gn] nid_in_ids[of n] n(2) by auto
  ultimately show ?thesis using k by simp
qed

lemma path_less_subseq:
  "distinct (ids t) \<Longrightarrow> getPath t x = Some p \<Longrightarrow> getPath t y = Some q \<Longrightarrow> p < q \<Longrightarrow>
   subseq [x, y] (ids t)"
proof (induction p arbitrary: t q)
  case Nil
  from getPath_sound[OF Nil(2)] have x: "x = nid t" by auto
  from Nil(4) obtain j q' where q: "q = j # q'" by (cases q) auto
  from getPath_kid[OF Nil(1) Nil(3)[unfolded q]] have j: "j < length (kids t)" "y \<in> set (ids (kids t ! j))" by auto
  have "set (ids (kids t ! j)) \<subseteq> set (concat (map ids (kids t)))" using j(1) by (auto intro!: bexI[of _ "kids t ! j"])
  with j(2) have "y \<in> set (concat (map ids (kids t)))" by blast
  moreover have "ids t = nid t # concat (map ids (kids t))" by (cases t) simp
  ultimately show ?case unfolding subseq_pair_iff x
    by (intro exI[of _ "[]"] exI[of _ "concat (map ids (kids t))"]) simp
next
  case (Cons k p)
  from Cons.prems(4) obtain j q' where q: "q = j # q'" by (cases q) auto
  from getPath_kid[OF Cons.prems(1,2)] have k: "k < length (kids t)" "getPath (kids t ! k) x = Some p"
    "x \<in> set (ids (kids t ! k))" by auto
  from getPath_kid[OF Cons.prems(1) Cons.prems(3)[unfolded q]] have j: "j < length (kids t)"
    "getPath (kids t ! j) y = Some q'" "y \<in> set (ids (kids t ! j))" by auto
  from Cons.prems(4) q consider "k < j" | "k = j" "p < q'" by (auto split: if_splits)
  then show ?case
  proof cases
    case 1
    have "ids t = nid t # concat (map ids (take j (kids t))) @ ids (kids t ! j) @ concat (map ids (drop (Suc j) (kids t)))"
      using concat_map_nth[OF j(1), of ids] by (cases t) simp
    moreover have "x \<in> set (concat (map ids (take j (kids t))))"
    proof -
      have "kids t ! k \<in> set (take j (kids t))" using 1 j(1) by (auto simp: in_set_conv_nth intro!: exI[of _ k])
      with k(3) show ?thesis by auto
    qed
    ultimately obtain A B where ab: "ids t = A @ B" "x \<in> set A" "y \<in> set B"
      using j(3) by (metis append_Cons list.set_intros(2) Un_iff set_append)
    from ab(2) obtain a1 a2 where "A = a1 @ x # a2" by (auto simp: in_set_conv_decomp)
    with ab show ?thesis unfolding subseq_pair_iff by (intro exI[of _ a1] exI[of _ "a2 @ B"]) auto
  next
    case 2
    from Cons.IH[OF distinct_kids(1)[OF Cons.prems(1) k(1)] k(2) j(2)[folded 2(1)] 2(2)]
    have "subseq [x, y] (ids (kids t ! k))" .
    from this ids_kid_subseq[OF k(1)] show ?thesis by (rule subseq_order.order_trans)
  qed
qed

lemma subseq_path_less:
  assumes d: "distinct (ids t)" and s: "subseq [x, y] (ids t)"
    and p: "getPath t x = Some p" and q: "getPath t y = Some q"
  shows "p < q"
proof -
  note n = subseq_pair_distinct[OF d s]
  have "p \<noteq> q"
  proof
    assume "p = q"
    with getPath_sound[OF p] getPath_sound[OF q] have "x = y" by auto
    with n(1) show False by simp
  qed
  moreover have "\<not> q < p"
  proof
    assume "q < p"
    from path_less_subseq[OF d q p this] n(2) show False by simp
  qed
  ultimately show ?thesis by auto
qed

lemma docOrdered_subseq:
  assumes d: "distinct (ids t)" and d': "distinct (ids t')" and s: "subseq (ids t) (ids t')"
    and m: "set bs \<subseteq> set (ids t)" and m': "set bs \<subseteq> set (ids t')" and o: "docOrdered t bs"
  shows "docOrdered t' bs"
  unfolding docOrdered_def
proof (rule sorted_wrt_mono_rel[OF _ o[unfolded docOrdered_def]])
  fix x y assume xy: "x \<in> set bs" "y \<in> set bs" "the (getPath t x) < the (getPath t y)"
  from xy m have "getPath t x \<noteq> None" "getPath t y \<noteq> None" by (auto simp: getPath_None)
  then obtain p q where pq: "getPath t x = Some p" "getPath t y = Some q" by auto
  from xy m' have "getPath t' x \<noteq> None" "getPath t' y \<noteq> None" by (auto simp: getPath_None)
  then obtain p' q' where pq': "getPath t' x = Some p'" "getPath t' y = Some q'" by auto
  from xy(3) pq have "p < q" by simp
  from path_less_subseq[OF d pq this] have "subseq [x, y] (ids t)" .
  from this s have "subseq [x, y] (ids t')" by (rule subseq_order.order_trans)
  from subseq_path_less[OF d' this pq'] pq' show "the (getPath t' x) < the (getPath t' y)" by simp
qed

lemma shape_unique:
  assumes d: "distinct (ids t)" and f: "(i, n, ks) \<in> set (shapeFacts t)"
    and f': "(i, n', ks') \<in> set (shapeFacts t)"
  shows "n = n' \<and> ks = ks'"
proof -
  from f obtain q a where a: "getNodeByPath t q = Some a" "i = nid a" "n = nname a" "ks = map nid (kids a)"
    unfolding shapeFacts_path by auto
  from f' obtain q' a' where a': "getNodeByPath t q' = Some a'" "i = nid a'" "n' = nname a'" "ks' = map nid (kids a')"
    unfolding shapeFacts_path by auto
  from getPath_unique[OF d a(1)] getPath_unique[OF d a'(1)] a(2) a'(2) have "q = q'" by simp
  with a a' show ?thesis by simp
qed

lemma shape_children:
  assumes d: "distinct (ids u)" and f: "(w, n, g) \<in> set (shapeFacts u)"
  shows "\<exists>q W. getNodeByPath u q = Some W \<and> nid W = w \<and> nname W = n \<and> map nid (kids W) = g
     \<and> getPath u w = Some q
     \<and> (\<forall>j<length g. getPath u (g ! j) = Some (q @ [j]))"
proof -
  from f obtain q W where W: "getNodeByPath u q = Some W" "w = nid W" "n = nname W" "g = map nid (kids W)"
    unfolding shapeFacts_path by auto
  have "\<forall>j<length g. getPath u (g ! j) = Some (q @ [j])"
  proof (intro allI impI)
    fix j assume j: "j < length g"
    then have "getNodeByPath u (q @ [j]) = Some (kids W ! j)" using W by (simp add: getNodeByPath_snoc)
    from getPath_unique[OF d this] j W(4) show "getPath u (g ! j) = Some (q @ [j])" by simp
  qed
  with W getPath_unique[OF d W(1)] show ?thesis by auto
qed

lemma siblingRun_nth:
  "(\<forall>j. Suc j < length g \<longrightarrow> nextSibling t (g ! j) = Some (g ! Suc j)) \<Longrightarrow> siblingRun t g"
proof (induction t g rule: siblingRun.induct)
  case (3 t b c bs)
  from 3(2)[rule_format, of 0] have "nextSibling t b = Some c" by simp
  moreover have "siblingRun t (c # bs)"
  proof (rule 3(1), intro allI impI)
    fix j assume "Suc j < length (c # bs)"
    with 3(2)[rule_format, of "Suc j"] show "nextSibling t ((c # bs) ! j) = Some ((c # bs) ! Suc j)" by simp
  qed
  ultimately show ?case by simp
qed auto

lemma maximalRuns_append_run:
  "g \<noteq> [] \<Longrightarrow> siblingRun t g \<Longrightarrow> (rest \<noteq> [] \<longrightarrow> nextSibling t (last g) \<noteq> Some (hd rest)) \<Longrightarrow>
   maximalRuns t (g @ rest) = g # maximalRuns t rest"
proof (induction t g rule: siblingRun.induct)
  case (1 t) then show ?case by simp
next
  case (2 t b)
  then show ?case by (cases rest) auto
next
  case (3 t b c bs)
  from 3(3) have ns: "nextSibling t b = Some c" and run: "siblingRun t (c # bs)" by auto
  from 3(1)[OF _ run] 3(4) have "maximalRuns t ((c # bs) @ rest) = (c # bs) # maximalRuns t rest" by simp
  with ns show ?case by simp
qed

lemma maximalRuns_unique:
  "\<forall>g\<in>set R. g \<noteq> [] \<and> siblingRun t g \<Longrightarrow>
   \<forall>(g, h)\<in>set (pairs R). nextSibling t (last g) \<noteq> Some (hd h) \<Longrightarrow>
   maximalRuns t (concat R) = R"
proof (induction R)
  case Nil then show ?case by simp
next
  case (Cons g R)
  have ih: "maximalRuns t (concat R) = R"
    using Cons.prems by (intro Cons.IH) (auto simp: set_pairs_Cons)
  have "concat R \<noteq> [] \<longrightarrow> nextSibling t (last g) \<noteq> Some (hd (concat R))"
  proof
    assume "concat R \<noteq> []"
    then obtain h R' where R: "R = h # R'" by (cases R) auto
    with Cons.prems(1) have "h \<noteq> []" by simp
    then have "hd (concat R) = hd h" using R by simp
    moreover have "(g, h) \<in> set (pairs (g # R))" using R by simp
    ultimately show "nextSibling t (last g) \<noteq> Some (hd (concat R))" using Cons.prems(2) by fastforce
  qed
  with maximalRuns_append_run[of g t "concat R"] Cons.prems(1) ih show ?case by simp
qed

lemma unwrap_collect:
  assumes P: "getNodeByPath t q = Some P" and k: "k < length (kids P)" and C: "kids P ! k = C"
    and u: "updateKids q (\<lambda>ks. take k ks @ kids C @ drop (Suc k) ks) t = Some t'"
  shows "\<exists>A B. collect L t = A @ L (nid P) (nname P) (map label (kids P))
                   @ concat (map (collect L) (take k (kids P)))
                   @ L (nid C) (nname C) (map label (kids C))
                   @ concat (map (collect L) (kids C))
                   @ concat (map (collect L) (drop (Suc k) (kids P))) @ B
     \<and> collect L t' = A @ L (nid P) (nname P) (map label (take k (kids P) @ kids C @ drop (Suc k) (kids P)))
                   @ concat (map (collect L) (take k (kids P)))
                   @ concat (map (collect L) (kids C))
                   @ concat (map (collect L) (drop (Suc k) (kids P))) @ B"
proof -
  from collect_updateKids[OF P u, of L] obtain A B where
    ab: "collect L t = A @ collect L P @ B"
        "collect L t' = A @ collect L (Node (nid P) (nname P) (take k (kids P) @ kids C @ drop (Suc k) (kids P))) @ B"
    by auto
  have 1: "collect L P = L (nid P) (nname P) (map label (kids P))
                   @ concat (map (collect L) (take k (kids P)))
                   @ L (nid C) (nname C) (map label (kids C))
                   @ concat (map (collect L) (kids C))
                   @ concat (map (collect L) (drop (Suc k) (kids P)))"
    using concat_map_nth[OF k, of "collect L"] collect_unfold[of L C] C
    by (subst collect_unfold) simp
  have 2: "collect L (Node (nid P) (nname P) (take k (kids P) @ kids C @ drop (Suc k) (kids P))) =
      L (nid P) (nname P) (map label (take k (kids P) @ kids C @ drop (Suc k) (kids P)))
                   @ concat (map (collect L) (take k (kids P)))
                   @ concat (map (collect L) (kids C))
                   @ concat (map (collect L) (drop (Suc k) (kids P)))"
    by simp
  show ?thesis unfolding ab 1 2 by (intro exI[of _ A] exI[of _ B]) simp
qed

lemma unwrap_ids:
  assumes P: "getNodeByPath t q = Some P" and k: "k < length (kids P)" and C: "kids P ! k = C"
    and u: "updateKids q (\<lambda>ks. take k ks @ kids C @ drop (Suc k) ks) t = Some t'"
    and d: "distinct (ids t)"
  shows "distinct (ids t')" and "set (ids t') = set (ids t) - {nid C}"
proof -
  from unwrap_collect[OF P k C u, of "\<lambda>i n ls. [i]"] obtain A B where
    ab: "ids t = A @ [nid P] @ concat (map ids (take k (kids P))) @ [nid C]
                   @ concat (map ids (kids C)) @ concat (map ids (drop (Suc k) (kids P))) @ B"
        "ids t' = A @ [nid P] @ concat (map ids (take k (kids P)))
                   @ concat (map ids (kids C)) @ concat (map ids (drop (Suc k) (kids P))) @ B"
    unfolding ids_collect[symmetric, abs_def] by blast
  define X where "X = A @ [nid P] @ concat (map ids (take k (kids P)))"
  define Y where "Y = concat (map ids (kids C)) @ concat (map ids (drop (Suc k) (kids P))) @ B"
  have xy: "ids t = X @ nid C # Y" "ids t' = X @ Y" unfolding ab X_def Y_def by simp_all
  show "distinct (ids t')" using d unfolding xy by auto
  show "set (ids t') = set (ids t) - {nid C}" using d unfolding xy by auto
qed

lemma unwrap_shape:
  assumes P: "getNodeByPath t q = Some P" and k: "k < length (kids P)" and C: "kids P ! k = C"
    and u: "updateKids q (\<lambda>ks. take k ks @ kids C @ drop (Suc k) ks) t = Some t'"
    and f: "f \<in> set (shapeFacts t)" and nC: "fst f \<noteq> nid C" and nP: "nid C \<notin> set (snd (snd f))"
  shows "f \<in> set (shapeFacts t')"
proof -
  from unwrap_collect[OF P k C u, of "\<lambda>i n ls. [(i, n, map fst ls)]", folded shapeFacts_def] obtain A B where
    ab: "shapeFacts t = A @ [(nid P, nname P, map fst (map label (kids P)))]
                   @ concat (map shapeFacts (take k (kids P)))
                   @ [(nid C, nname C, map fst (map label (kids C)))]
                   @ concat (map shapeFacts (kids C))
                   @ concat (map shapeFacts (drop (Suc k) (kids P))) @ B"
     "shapeFacts t' = A @ [(nid P, nname P, map fst (map label (take k (kids P) @ kids C @ drop (Suc k) (kids P))))]
                   @ concat (map shapeFacts (take k (kids P)))
                   @ concat (map shapeFacts (kids C))
                   @ concat (map shapeFacts (drop (Suc k) (kids P))) @ B" by blast
  have "nid C \<in> set (map nid (kids P))" using k C by (auto simp: in_set_conv_nth intro!: image_eqI[of _ _ "kids P ! k"])
  then have "f \<noteq> (nid P, nname P, map fst (map label (kids P)))" using nP by auto
  moreover have "f \<noteq> (nid C, nname C, map fst (map label (kids C)))" using nC by auto
  ultimately show ?thesis using f unfolding ab set_append by auto
qed

lemma unwrap_strip:
  assumes P: "getNodeByPath t q = Some P" and k: "k < length (kids P)" and C: "kids P ! k = C"
    and u: "updateKids q (\<lambda>ks. take k ks @ kids C @ drop (Suc k) ks) t = Some t'"
    and S: "nid C \<in> S"
  shows "strip S t' = strip S t"
proof (rule strip_updateKids[OF P u])
  have "kids P = take k (kids P) @ C # drop (Suc k) (kids P)" using kids_decomp[OF k] C by simp
  then have "stripKids S (kids P) = stripKids S (take k (kids P) @ C # drop (Suc k) (kids P))" by simp
  also have "\<dots> = stripKids S (take k (kids P)) @ stripKids S (kids C) @ stripKids S (drop (Suc k) (kids P))"
    using S stripKids_Cons_in[of "nid C" S "nname C" "kids C"] by simp
  finally show "stripKids S (take k (kids P) @ kids C @ drop (Suc k) (kids P)) = stripKids S (kids P)"
    by simp
qed

lemma removeBlockGroups_full:
  "distinct (ids u) \<Longrightarrow>
   sorted_wrt (\<lambda>a b. fst a @ [length (snd (snd a)) - 1] < fst b) its \<Longrightarrow>
   \<forall>x\<in>set its. fst x \<noteq> [] \<and> snd (snd x) \<noteq> []
       \<and> (\<exists>C. getNodeByPath u (fst x) = Some C \<and> nid C = fst (snd x))
       \<and> (fst (snd x), ''codeBlock'', snd (snd x)) \<in> set (shapeFacts u) \<and> fst (snd x) \<in> S \<Longrightarrow>
   distinct (map (\<lambda>x. fst (snd x)) its) \<Longrightarrow>
   \<forall>x\<in>set its. \<forall>y\<in>set its. fst (snd x) \<notin> set (snd (snd y)) \<Longrightarrow>
   \<exists>u'. removeBlockGroups u (rev (map (\<lambda>x. mkRange (fst x) 0 (length (snd (snd x)))) its)) = Some u'
     \<and> distinct (ids u') \<and> strip S u' = strip S u
     \<and> set (ids u') = set (ids u) - set (map (\<lambda>x. fst (snd x)) its)"
proof (induction its arbitrary: u rule: rev_induct)
  case Nil
  then show ?case by simp
next
  case (snoc x its)
  obtain c w g where x: "x = (c, w, g)" by (cases x)
  from snoc.prems(3) x obtain C where C: "c \<noteq> []" "g \<noteq> []" "getNodeByPath u c = Some C" "nid C = w"
    "(w, ''codeBlock'', g) \<in> set (shapeFacts u)" "w \<in> S" by auto
  from C(1) obtain q k where qk: "c = q @ [k]" by (cases c rule: rev_cases) auto
  from getNodeByPath_snocD[OF C(3)[unfolded qk]] obtain P where
    P: "getNodeByPath u q = Some P" "k < length (kids P)" "kids P ! k = C" by auto
  have own: "\<And>c' C'. getNodeByPath u c' = Some C' \<Longrightarrow> (nid C', nname C', map nid (kids C')) \<in> set (shapeFacts u)"
    unfolding shapeFacts_path by blast
  from shape_unique[OF snoc.prems(1) own[OF C(3)] C(5)[folded C(4)]] have kc: "map nid (kids C) = g" by simp
  then have len: "length (kids C) = length g" by (metis length_map)
  let ?F = "\<lambda>ks. take k ks @ kids C @ drop (Suc k) ks"
  from updateKids_Some[OF P(1), of ?F] obtain u1 where u1: "updateKids q ?F u = Some u1" by auto
  have step: "removeBlockGroup u (mkRange c 0 (length g)) = Some u1"
    using removeBlockGroup_full[OF snoc.prems(1) C(3)[unfolded qk]] u1 len qk by simp
  note idf = unwrap_ids[OF P u1 snoc.prems(1)]
  have st1: "strip S u1 = strip S u" using C(4,6) by (intro unwrap_strip[OF P u1]) simp
  have ag: "agreeUpTo c u u1" unfolding qk by (rule agree_left[OF P(1,2) u1])
  from snoc.prems(2) have srt: "sorted_wrt (\<lambda>a b. fst a @ [length (snd (snd a)) - 1] < fst b) its"
    and bf: "\<forall>y\<in>set its. fst y @ [length (snd (snd y)) - 1] < c"
    by (auto simp: sorted_wrt_append x)
  from snoc.prems(4) have dw: "distinct (map (\<lambda>x. fst (snd x)) its)"
    and wn: "\<forall>y\<in>set its. fst (snd y) \<noteq> w" by (auto simp: x)
  have ok1: "\<forall>y\<in>set its. fst y \<noteq> [] \<and> snd (snd y) \<noteq> []
       \<and> (\<exists>C. getNodeByPath u1 (fst y) = Some C \<and> nid C = fst (snd y))
       \<and> (fst (snd y), ''codeBlock'', snd (snd y)) \<in> set (shapeFacts u1) \<and> fst (snd y) \<in> S"
  proof
    fix y assume y: "y \<in> set its"
    obtain c' w' g' where y': "y = (c', w', g')" by (cases y)
    from snoc.prems(3) y y' obtain C' where C': "c' \<noteq> []" "g' \<noteq> []" "getNodeByPath u c' = Some C'"
      "nid C' = w'" "(w', ''codeBlock'', g') \<in> set (shapeFacts u)" "w' \<in> S" by auto
    from shape_unique[OF snoc.prems(1) own[OF C'(3)] C'(5)[folded C'(4)]] have "map nid (kids C') = g'" by simp
    then have "length (kids C') = length g'" by (metis length_map)
    with C'(2) have el: "length g' - 1 < length (kids C')" by simp
    from bf[rule_format, OF y] have lt: "c' @ [length g' - 1] < c" unfolding y' by simp
    from agreeUpTo_stable[OF ag C(1) lt C'(3) el] obtain n' where
      n': "getNodeByPath u1 c' = Some n'" "label n' = label C'" by auto
    then have a: "\<exists>C. getNodeByPath u1 c' = Some C \<and> nid C = w'" using C'(4) by (auto simp: label_def)
    have "w' \<noteq> nid C" using wn y y' C(4) by auto
    moreover have "nid C \<notin> set g'" using snoc.prems(5) y y' x C(4) by fastforce
    ultimately have "(w', ''codeBlock'', g') \<in> set (shapeFacts u1)"
      using unwrap_shape[OF P u1 C'(5)] by simp
    with a C' y' show "fst y \<noteq> [] \<and> snd (snd y) \<noteq> []
       \<and> (\<exists>C. getNodeByPath u1 (fst y) = Some C \<and> nid C = fst (snd y))
       \<and> (fst (snd y), ''codeBlock'', snd (snd y)) \<in> set (shapeFacts u1) \<and> fst (snd y) \<in> S" by simp
  qed
  have ng: "\<forall>x\<in>set its. \<forall>y\<in>set its. fst (snd x) \<notin> set (snd (snd y))" using snoc.prems(5) by simp
  from snoc.IH[OF idf(1) srt ok1 dw ng] obtain u' where
    u': "removeBlockGroups u1 (rev (map (\<lambda>x. mkRange (fst x) 0 (length (snd (snd x)))) its)) = Some u'"
      "distinct (ids u')" "strip S u' = strip S u1"
      "set (ids u') = set (ids u1) - set (map (\<lambda>x. fst (snd x)) its)" by blast
  have 1: "removeBlockGroups u (rev (map (\<lambda>x. mkRange (fst x) 0 (length (snd (snd x)))) (its @ [x]))) = Some u'"
    using step u'(1) x by simp
  have 2: "set (ids u') = set (ids u) - set (map (\<lambda>x. fst (snd x)) (its @ [x]))"
    using u'(4) idf(2) x C(4) by auto
  show ?case using 1 2 u'(2,3) st1 by (intro exI[of _ u']) simp
qed

lemma zip_nth_mem: "length ws = length R \<Longrightarrow> g \<in> set R \<Longrightarrow> \<exists>w. (w, g) \<in> set (zip ws R)"
proof -
  assume l: "length ws = length R" and g: "g \<in> set R"
  from g obtain i where i: "i < length R" "R ! i = g" by (auto simp: in_set_conv_nth)
  with l have "(ws ! i, g) \<in> set (zip ws R)" by (auto simp: set_zip intro!: exI[of _ i])
  then show ?thesis by blast
qed

lemma removeBlock_wrapped:
  assumes d0: "distinct (ids t)" and du: "distinct (ids u)"
    and ord: "docOrdered t bs" and mem: "set bs \<subseteq> set (ids t)"
    and lw: "length ws = length (maximalRuns t bs)"
    and idu: "set (ids u) = set (ids t) \<union> set ws" and fr: "set ws \<inter> set (ids t) = {}"
    and dw: "distinct ws" and sub: "subseq (ids t) (ids u)"
    and st: "strip (set ws) u = strip (set ws) t"
    and sh: "\<forall>(w, g)\<in>set (zip ws (maximalRuns t bs)). (w, ''codeBlock'', g) \<in> set (shapeFacts u)"
  shows "(\<forall>b\<in>set bs. isBlocked u b = Some True) \<and> removeBlock u bs = Some t"
proof -
  let ?R = "maximalRuns t bs"
  let ?Z = "zip ws ?R"
  let ?S = "set ws"
  let ?pu = "\<lambda>x. the (getPath u x)"
  let ?item = "\<lambda>p. (?pu (fst p), fst p, snd p)"
  let ?its = "map ?item ?Z"
  have cR: "concat ?R = bs" by (rule concat_maximalRuns)
  have root: "nid u = nid t"
  proof -
    have "nid u = nid (strip ?S u)" by simp
    also have "\<dots> = nid (strip ?S t)" by (simp only: st)
    finally show ?thesis by simp
  qed
  have facts: "\<And>w g. (w, g) \<in> set ?Z \<Longrightarrow>
     \<exists>q W. getNodeByPath u q = Some W \<and> nid W = w \<and> nname W = ''codeBlock'' \<and> map nid (kids W) = g
       \<and> getPath u w = Some q \<and> (\<forall>j<length g. getPath u (g ! j) = Some (q @ [j]))
       \<and> q \<noteq> [] \<and> g \<noteq> [] \<and> set g \<subseteq> set bs \<and> w \<in> ?S"
  proof -
    fix w g assume m: "(w, g) \<in> set ?Z"
    then have g: "g \<in> set ?R" and w: "w \<in> ?S" by (auto dest: set_zip_rightD set_zip_leftD)
    from m sh have "(w, ''codeBlock'', g) \<in> set (shapeFacts u)" by fastforce
    from shape_children[OF du this] obtain q W where
      W: "getNodeByPath u q = Some W" "nid W = w" "nname W = ''codeBlock''" "map nid (kids W) = g"
         "getPath u w = Some q" "\<forall>j<length g. getPath u (g ! j) = Some (q @ [j])" by blast
    have "q \<noteq> []"
    proof
      assume "q = []"
      with W(1,2) have "nid u = w" by simp
      with root have "w \<in> set (ids t)" using nid_in_ids[of t] by simp
      with w fr show False by blast
    qed
    with W maximalRuns_nonempty[OF g] maximalRuns_subset[OF g] w show
      "\<exists>q W. getNodeByPath u q = Some W \<and> nid W = w \<and> nname W = ''codeBlock'' \<and> map nid (kids W) = g
       \<and> getPath u w = Some q \<and> (\<forall>j<length g. getPath u (g ! j) = Some (q @ [j]))
       \<and> q \<noteq> [] \<and> g \<noteq> [] \<and> set g \<subseteq> set bs \<and> w \<in> ?S" by blast
  qed
  have next_in: "\<And>w g j. (w, g) \<in> set ?Z \<Longrightarrow> j < length g \<Longrightarrow>
      nextSibling u (g ! j) = (if Suc j < length g then Some (g ! Suc j) else None)"
  proof -
    fix w g j assume m: "(w, g) \<in> set ?Z" and j: "j < length g"
    from facts[OF m] obtain q W where
      W: "getNodeByPath u q = Some W" "map nid (kids W) = g" by blast
    from W(2) have len: "length (kids W) = length g" by (metis length_map)
    have n: "getNodeByPath u (q @ [j]) = Some (kids W ! j)" using W(1) j len by (simp add: getNodeByPath_snoc)
    have gj: "nid (kids W ! j) = g ! j" using W(2) j len by (metis nth_map)
    have "nextSibling u (nid (kids W ! j)) =
       (case getNodeByPath u (q @ [Suc j]) of None \<Rightarrow> None | Some m \<Rightarrow> Some (nid m))"
      by (rule nextSibling_path[OF du n])
    also have "\<dots> = (if Suc j < length g then Some (g ! Suc j) else None)"
      using W len by (auto simp: getNodeByPath_snoc)
    finally show "nextSibling u (g ! j) = (if Suc j < length g then Some (g ! Suc j) else None)"
      using gj by simp
  qed
  have par: "\<And>w g b. (w, g) \<in> set ?Z \<Longrightarrow> b \<in> set g \<Longrightarrow>
      \<exists>W. parent u b = Some W \<and> nname W = ''codeBlock''"
  proof -
    fix w g b assume m: "(w, g) \<in> set ?Z" and b: "b \<in> set g"
    from facts[OF m] obtain q W where
      W: "getNodeByPath u q = Some W" "nname W = ''codeBlock''"
         "\<forall>j<length g. getPath u (g ! j) = Some (q @ [j])" by blast
    from b obtain j where j: "j < length g" "g ! j = b" by (auto simp: in_set_conv_nth)
    with W(3) have "getPath u b = Some (q @ [j])" by auto
    with W(1) have "parent u b = Some W" by (simp add: parent_def)
    with W(2) show "\<exists>W. parent u b = Some W \<and> nname W = ''codeBlock''" by blast
  qed
  have blocked: "\<forall>b\<in>set bs. \<exists>W. parent u b = Some W \<and> nname W = ''codeBlock''"
  proof
    fix b assume "b \<in> set bs"
    then have "b \<in> set (concat ?R)" by (simp only: cR)
    then obtain g where g: "g \<in> set ?R" "b \<in> set g" by auto
    from zip_nth_mem[OF lw g(1)] obtain w where "(w, g) \<in> set ?Z" by blast
    from par[OF this g(2)] show "\<exists>W. parent u b = Some W \<and> nname W = ''codeBlock''" .
  qed
  then have isb: "\<forall>b\<in>set bs. isBlocked u b = Some True"
    by (auto simp: isBlocked_def findBlock_def parentOf_def)
  have runsU: "\<forall>g\<in>set ?R. g \<noteq> [] \<and> siblingRun u g"
  proof
    fix g assume g: "g \<in> set ?R"
    from zip_nth_mem[OF lw g] obtain w where m: "(w, g) \<in> set ?Z" by blast
    have "siblingRun u g"
      using next_in[OF m] by (intro siblingRun_nth) auto
    with maximalRuns_nonempty[OF g] show "g \<noteq> [] \<and> siblingRun u g" by simp
  qed
  have brk: "\<forall>(g, h)\<in>set (pairs ?R). nextSibling u (last g) \<noteq> Some (hd h)"
  proof -
    have "\<And>g h. (g, h) \<in> set (pairs ?R) \<Longrightarrow> nextSibling u (last g) \<noteq> Some (hd h)"
    proof -
      fix g h assume "(g, h) \<in> set (pairs ?R)"
      from set_pairs_mem[OF this] have g: "g \<in> set ?R" by simp
      from zip_nth_mem[OF lw g] obtain w where m: "(w, g) \<in> set ?Z" by blast
      have ne: "g \<noteq> []" by (rule maximalRuns_nonempty[OF g])
      then have "last g = g ! (length g - 1)" by (simp add: last_conv_nth)
      with next_in[OF m, of "length g - 1"] ne show "nextSibling u (last g) \<noteq> Some (hd h)" by simp
    qed
    then show ?thesis by auto
  qed
  have mrU: "maximalRuns u bs = ?R"
    using maximalRuns_unique[OF runsU brk] cR by simp
  have pn: "\<forall>b\<in>set bs. parent u b \<noteq> None" using blocked by auto
  have rg: "getRangesOfBlockGroups u bs = Some (map (groupRange u) ?R)"
    using getRanges_runs[OF pn] mrU by simp
  have gr: "\<And>w g. (w, g) \<in> set ?Z \<Longrightarrow> groupRange u g = mkRange (?pu w) 0 (length g)"
  proof -
    fix w g assume m: "(w, g) \<in> set ?Z"
    from facts[OF m] obtain q where
      W: "getPath u w = Some q" "\<forall>j<length g. getPath u (g ! j) = Some (q @ [j])" "g \<noteq> []" by blast
    have h: "getPath u (hd g) = Some (q @ [0])" using W(2,3) by (simp add: hd_conv_nth)
    have l: "getPath u (last g) = Some (q @ [length g - 1])" using W(2,3) by (simp add: last_conv_nth)
    have "0 < length g" using W(3) by simp
    then show "groupRange u g = mkRange (?pu w) 0 (length g)"
      using h l W(1) by (simp add: groupRange_def createBefore_def createAfter_def mkRange_def)
  qed
  have sndZ: "map snd ?Z = ?R" and fstZ: "map fst ?Z = ws" using lw by simp_all
  have "map (groupRange u) ?R = map (groupRange u) (map snd ?Z)" by (simp only: sndZ)
  also have "\<dots> = map (\<lambda>p. groupRange u (snd p)) ?Z" by (simp only: map_map comp_def)
  also have "\<dots> = map (\<lambda>p. mkRange (?pu (fst p)) 0 (length (snd p))) ?Z"
    using gr by (intro map_cong) auto
  also have "\<dots> = map (\<lambda>x. mkRange (fst x) 0 (length (snd (snd x)))) ?its"
    by (simp add: comp_def)
  finally have rs: "map (groupRange u) ?R = map (\<lambda>x. mkRange (fst x) 0 (length (snd (snd x)))) ?its" .
  have memu: "set bs \<subseteq> set (ids u)" using mem idu by auto
  have ordu: "docOrdered u bs" by (rule docOrdered_subseq[OF d0 du sub mem memu ord])
  let ?P = "\<lambda>x y. ?pu x < ?pu y"
  have "sorted_wrt ?P (concat ?R)" using ordu by (simp add: cR docOrdered_def)
  from sorted_wrt_concat_blocks[OF this]
  have "sorted_wrt (\<lambda>g h. \<forall>x\<in>set g. \<forall>y\<in>set h. ?P x y) (map snd ?Z)" by (simp only: sndZ)
  then have sz: "sorted_wrt (\<lambda>a b. \<forall>x\<in>set (snd a). \<forall>y\<in>set (snd b). ?P x y) ?Z"
    by (simp add: sorted_wrt_map)
  have "sorted_wrt (\<lambda>a b. fst (?item a) @ [length (snd (snd (?item a))) - 1] < fst (?item b)) ?Z"
  proof (rule sorted_wrt_mono_rel[OF _ sz])
    fix a b assume ab: "a \<in> set ?Z" "b \<in> set ?Z" "\<forall>x\<in>set (snd a). \<forall>y\<in>set (snd b). ?P x y"
    obtain w g where a: "a = (w, g)" by (cases a)
    obtain w' g' where b: "b = (w', g')" by (cases b)
    from facts[OF ab(1)[unfolded a]] obtain q where
      A: "getPath u w = Some q" "\<forall>j<length g. getPath u (g ! j) = Some (q @ [j])" "g \<noteq> []"
         "set g \<subseteq> set bs" by blast
    from facts[OF ab(2)[unfolded b]] obtain q' W' where
      B: "getNodeByPath u q' = Some W'" "nid W' = w'" "getPath u w' = Some q'"
         "\<forall>j<length g'. getPath u (g' ! j) = Some (q' @ [j])" "g' \<noteq> []" "w' \<in> ?S" by blast
    have l: "getPath u (last g) = Some (q @ [length g - 1])" using A(2,3) by (simp add: last_conv_nth)
    have h: "getPath u (hd g') = Some (q' @ [0])" using B(4,5) by (simp add: hd_conv_nth)
    from ab(3) a b A(3) B(5) have "?P (last g) (hd g')" by simp
    with l h have lt: "q @ [length g - 1] < q' @ [0]" by simp
    with lex_less_snoc_zero have le: "q @ [length g - 1] \<le> q'" by simp
    have "q @ [length g - 1] \<noteq> q'"
    proof
      assume eq: "q @ [length g - 1] = q'"
      from getPath_sound[OF l] obtain n where n: "getNodeByPath u (q @ [length g - 1]) = Some n" "nid n = last g" by auto
      with eq B(1,2) have "last g = w'" by simp
      moreover have "last g \<in> set (ids t)" using last_in_set[OF A(3)] A(4) mem by blast
      ultimately show False using B(6) fr by blast
    qed
    with le show "fst (?item a) @ [length (snd (snd (?item a))) - 1] < fst (?item b)"
      using a b A(1) B(3) by simp
  qed
  then have srt: "sorted_wrt (\<lambda>a b. fst a @ [length (snd (snd a)) - 1] < fst b) ?its"
    by (simp add: sorted_wrt_map)
  have ok: "\<forall>x\<in>set ?its. fst x \<noteq> [] \<and> snd (snd x) \<noteq> []
       \<and> (\<exists>C. getNodeByPath u (fst x) = Some C \<and> nid C = fst (snd x))
       \<and> (fst (snd x), ''codeBlock'', snd (snd x)) \<in> set (shapeFacts u) \<and> fst (snd x) \<in> ?S"
  proof
    fix x assume "x \<in> set ?its"
    then obtain w g where m: "(w, g) \<in> set ?Z" and x: "x = (?pu w, w, g)" by auto
    from facts[OF m] obtain q W where
      W: "getNodeByPath u q = Some W" "nid W = w" "getPath u w = Some q" "q \<noteq> []" "g \<noteq> []" "w \<in> ?S" by blast
    from m sh have "(w, ''codeBlock'', g) \<in> set (shapeFacts u)" by fastforce
    with W x show "fst x \<noteq> [] \<and> snd (snd x) \<noteq> []
       \<and> (\<exists>C. getNodeByPath u (fst x) = Some C \<and> nid C = fst (snd x))
       \<and> (fst (snd x), ''codeBlock'', snd (snd x)) \<in> set (shapeFacts u) \<and> fst (snd x) \<in> ?S" by simp
  qed
  have wsi: "map (\<lambda>x. fst (snd x)) ?its = ws" using fstZ by (simp add: comp_def)
  have dws: "distinct (map (\<lambda>x. fst (snd x)) ?its)" using dw by (simp only: wsi)
  have ng: "\<forall>x\<in>set ?its. \<forall>y\<in>set ?its. fst (snd x) \<notin> set (snd (snd y))"
  proof (intro ballI)
    fix x y assume "x \<in> set ?its" "y \<in> set ?its"
    then obtain w g w' g' where m: "(w, g) \<in> set ?Z" "(w', g') \<in> set ?Z"
      and xy: "x = (?pu w, w, g)" "y = (?pu w', w', g')" by auto
    from facts[OF m(1)] have "w \<in> ?S" by blast
    moreover from facts[OF m(2)] have "set g' \<subseteq> set bs" by blast
    ultimately show "fst (snd x) \<notin> set (snd (snd y))" using mem fr xy by auto
  qed
  from removeBlockGroups_full[OF du srt ok dws ng] obtain u' where
    u': "removeBlockGroups u (rev (map (\<lambda>x. mkRange (fst x) 0 (length (snd (snd x)))) ?its)) = Some u'"
      "distinct (ids u')" "strip ?S u' = strip ?S u"
      "set (ids u') = set (ids u) - set (map (\<lambda>x. fst (snd x)) ?its)" by blast
  have "set (ids u') = set (ids t)" using u'(4) idu fr unfolding wsi by auto
  then have "set (ids u') \<inter> ?S = {}" using fr by auto
  from strip_id[OF this] have "u' = strip ?S u'" by simp
  also have "\<dots> = strip ?S t" using u'(3) st by simp
  also have "\<dots> = t" using fr by (intro strip_id) auto
  finally have "u' = t" .
  with u'(1) rg rs have "removeBlock u bs = Some t" by (simp add: removeBlock_def)
  with isb show ?thesis by simp
qed

lemma filterBlocks_all:
  "\<forall>b\<in>set bs. f b = Some True \<Longrightarrow> filterBlocks f bs = Some bs"
  by (induction bs) auto

text \<open>
  Claim C6. For every editor with \<^verbatim>\<open>value\<close> false, a tree with distinct identities
  and a non-empty selection in document order in which every selected block passes
  \<^verbatim>\<open>checkCanBeBlocked\<close>: \<^verbatim>\<open>execute\<close> (the Wrap path) returns and puts every
  selected block into a code block; \<^verbatim>\<open>refresh\<close> then sets \<^verbatim>\<open>value\<close> to true; and
  \<^verbatim>\<open>execute\<close> again (the Unwrap path, over the same selection) returns the original
  document: the same blocks in the same order with the same content, and none of the
  containers that the Wrap path created remains.
\<close>

theorem execute_wrap_then_unwrap_restores:
  assumes "\<not> value ed"
    and "distinct (ids (document ed))"
    and "selectedBlocks ed \<noteq> []"
    and "docOrdered (document ed) (selectedBlocks ed)"
    and "\<forall>b\<in>set (selectedBlocks ed). checkCanBeBlocked (schema ed) (document ed) b = Some True"
  shows "\<exists>ed1 ed2 ed3. execute ed = Some ed1
     \<and> (\<forall>b\<in>set (selectedBlocks ed). isBlocked (document ed1) b = Some True)
     \<and> refresh ed1 = Some ed2 \<and> value ed2
     \<and> execute ed2 = Some ed3
     \<and> document ed3 = document ed \<and> selectedBlocks ed3 = selectedBlocks ed"
proof -
  let ?t = "document ed" and ?bs = "selectedBlocks ed" and ?h = "schema ed"
  have par: "\<forall>b\<in>set ?bs. \<exists>par. parent ?t b = Some par \<and> nname par \<noteq> ''codeBlock''"
    using guard_parent[OF assms(2)] assms(5) by blast
  have mem: "set ?bs \<subseteq> set (ids ?t)"
  proof
    fix b assume "b \<in> set ?bs"
    with par obtain p where "parent ?t b = Some p" by blast
    from parentD[OF this] show "b \<in> set (ids ?t)" using getPath_None[of ?t b] by auto
  qed
  have "\<forall>b\<in>set ?bs. canBlock ?h ?t b = Some True"
  proof
    fix b assume b: "b \<in> set ?bs"
    with par obtain p where "parent ?t b = Some p" "nname p \<noteq> ''codeBlock''" by blast
    then have "findBlock ?t (Element b) = Some None" by (simp add: findBlock_def parentOf_def)
    with assms(5) b show "canBlock ?h ?t b = Some True" by (simp add: canBlock_def)
  qed
  from filterBlocks_all[OF this] have btb: "blocksToBlock ed = Some ?bs" by (simp add: blocksToBlock_def)
  from applyBlock_wraps[OF assms(2,3,4) par] obtain u ws where
    w: "applyBlock ?t ?bs = Some u" "length ws = length (maximalRuns ?t ?bs)"
       "distinct (ids u)" "set (ids u) = set (ids ?t) \<union> set ws"
       "set ws \<inter> set (ids ?t) = {}" "distinct ws" "subseq (ids ?t) (ids u)"
       "\<forall>S. set ws \<subseteq> S \<longrightarrow> strip S u = strip S ?t"
       "\<forall>(w, g)\<in>set (zip ws (maximalRuns ?t ?bs)). (w, ''codeBlock'', g) \<in> set (shapeFacts u)"
    by blast
  from w(8) have st: "strip (set ws) u = strip (set ws) ?t" by simp
  from removeBlock_wrapped[OF assms(2) w(3) assms(4) mem w(2,4,5,6,7) st w(9)]
  have isb: "\<forall>b\<in>set ?bs. isBlocked u b = Some True" and rb: "removeBlock u ?bs = Some ?t" by auto
  let ?ed1 = "ed\<lparr>document := u\<rparr>"
  let ?ed2 = "?ed1\<lparr>value := True, isEnabled := True\<rparr>"
  let ?ed3 = "?ed2\<lparr>document := ?t\<rparr>"
  have e1: "execute ed = Some ?ed1" using assms(1) btb w(1) by (simp add: execute_def)
  obtain b0 rest where bs: "?bs = b0 # rest" using assms(3) by (cases ?bs) auto
  with isb have "isBlocked u b0 = Some True" by simp
  then have gv: "getValue ?ed1 = Some True" using bs by (simp add: getValue_def first_def)
  have r: "refresh ?ed1 = Some ?ed2" using gv by (simp add: refresh_def checkEnabled_def)
  have fb: "filterBlocks (isBlocked u) ?bs = Some ?bs" by (rule filterBlocks_all[OF isb])
  have e2: "execute ?ed2 = Some ?ed3" using fb rb by (simp add: execute_def)
  show ?thesis
    using e1 isb r e2
    by (intro exI[of _ ?ed1] exI[of _ ?ed2] exI[of _ ?ed3]) simp
qed

theorem execute_wrap_then_unwrap_example:
  "\<not> value toggleEditor
   \<and> distinct (ids (document toggleEditor))
   \<and> selectedBlocks toggleEditor \<noteq> []
   \<and> docOrdered (document toggleEditor) (selectedBlocks toggleEditor)
   \<and> list_all (\<lambda>b. checkCanBeBlocked (schema toggleEditor) (document toggleEditor) b = Some True)
        (selectedBlocks toggleEditor)
   \<and> map_option document (execute toggleEditor) =
       Some (Node 0 ''$root''
          [Node 11 ''codeBlock'' [paragraphNode 1, paragraphNode 2], paragraphNode 3,
           Node 9 ''codeBlock'' [paragraphNode 5], Node 10 ''codeBlock'' [paragraphNode 4]])
   \<and> map_option document (do { ed1 \<leftarrow> execute toggleEditor; ed2 \<leftarrow> refresh ed1; execute ed2 })
       = Some toggleDoc"
proof -
  have v: "\<not> value toggleEditor" by (simp add: toggleEditor_def)
  have d: "distinct (ids (document toggleEditor))" by code_simp
  have n: "selectedBlocks toggleEditor \<noteq> []" by (simp add: toggleEditor_def)
  have o: "docOrdered (document toggleEditor) (selectedBlocks toggleEditor)" by code_simp
  have a: "list_all (\<lambda>b. checkCanBeBlocked (schema toggleEditor) (document toggleEditor) b = Some True)
        (selectedBlocks toggleEditor)" by code_simp
  have a': "\<forall>b\<in>set (selectedBlocks toggleEditor).
      checkCanBeBlocked (schema toggleEditor) (document toggleEditor) b = Some True"
    using a by (simp add: list_all_iff)
  have e: "map_option document (execute toggleEditor) =
       Some (Node 0 ''$root''
          [Node 11 ''codeBlock'' [paragraphNode 1, paragraphNode 2], paragraphNode 3,
           Node 9 ''codeBlock'' [paragraphNode 5], Node 10 ''codeBlock'' [paragraphNode 4]])"
    by code_simp
  from execute_wrap_then_unwrap_restores[OF v d n o a'] obtain ed1 ed2 ed3 where
    r: "execute toggleEditor = Some ed1" "refresh ed1 = Some ed2" "execute ed2 = Some ed3"
       "document ed3 = document toggleEditor" by blast
  have "map_option document (do { ed1 \<leftarrow> execute toggleEditor; ed2 \<leftarrow> refresh ed1; execute ed2 })
       = Some toggleDoc"
    using r by (simp add: toggleEditor_def)
  with v d n o a e show ?thesis by simp
qed


section \<open>The merge pass of the Wrap path\<close>

lemma mergeStep_merge:
  assumes ns: "nextSibling t cur = Some x"
  shows "\<exists>q P j. getNodeByPath t q = Some P \<and> Suc j < length (kids P)
       \<and> nid (kids P ! j) = cur \<and> nid (kids P ! Suc j) = x
       \<and> mergeStep (t, Some cur) (Some x) =
           (case updateKids q (mergeKids j) t of None \<Rightarrow> None | Some t' \<Rightarrow> Some (t', Some cur))"
proof -
  from ns obtain par p where par: "parent t cur = Some par" "getPath t cur = Some p"
    "Suc (last p) < length (kids par)" "x = nid (kids par ! Suc (last p))"
    by (auto simp: nextSibling_def split: option.splits if_splits)
  from parentD[OF par(1)] par(2) have p: "p \<noteq> []" "getNodeByPath t (butlast p) = Some par" by auto
  from getPath_sound[OF par(2)] obtain n where n: "getNodeByPath t p = Some n" "nid n = cur" by auto
  have "getNodeByPath t (butlast p @ [last p]) = Some n" using n(1) p(1) by simp
  with p(2) par(3) have kn: "kids par ! last p = n" by (simp add: getNodeByPath_snoc split: if_splits)
  have ca: "createAfter t cur = Some \<lparr>parentPath = butlast p, offset = Suc (last p)\<rparr>"
    using par(2) p(1) by (simp add: createAfter_def)
  have f: "(\<lambda>ks. take (Suc (last p) - 1) ks
                @ [Node (nid (ks ! (Suc (last p) - 1))) (nname (ks ! (Suc (last p) - 1)))
                     (kids (ks ! (Suc (last p) - 1)) @ kids (ks ! Suc (last p)))]
                @ drop (Suc (Suc (last p))) ks) = mergeKids (last p)"
    by (simp add: mergeKids_def fun_eq_iff)
  have m: "merge t \<lparr>parentPath = butlast p, offset = Suc (last p)\<rparr> = updateKids (butlast p) (mergeKids (last p)) t"
    using p(2) par(3) f by (simp add: merge_def position_parent_def Let_def)
  have "mergeStep (t, Some cur) (Some x) =
      (case updateKids (butlast p) (mergeKids (last p)) t of None \<Rightarrow> None | Some t' \<Rightarrow> Some (t', Some cur))"
    using ns ca m by (simp add: mergeStep_def split: option.splits)
  with p(2) par(3,4) kn n(2) show ?thesis by blast
qed

lemma merge_collect:
  assumes P: "getNodeByPath t q = Some P" and j: "Suc j < length (kids P)"
    and u: "updateKids q (mergeKids j) t = Some t'"
  shows "\<exists>X Y. collect L t = X @ L (nid P) (nname P) (map label (kids P))
                   @ concat (map (collect L) (take j (kids P)))
                   @ L (nid (kids P ! j)) (nname (kids P ! j)) (map label (kids (kids P ! j)))
                   @ concat (map (collect L) (kids (kids P ! j)))
                   @ L (nid (kids P ! Suc j)) (nname (kids P ! Suc j)) (map label (kids (kids P ! Suc j)))
                   @ concat (map (collect L) (kids (kids P ! Suc j)))
                   @ concat (map (collect L) (drop (Suc (Suc j)) (kids P))) @ Y
     \<and> collect L t' = X @ L (nid P) (nname P) (map label (mergeKids j (kids P)))
                   @ concat (map (collect L) (take j (kids P)))
                   @ L (nid (kids P ! j)) (nname (kids P ! j))
                       (map label (kids (kids P ! j) @ kids (kids P ! Suc j)))
                   @ concat (map (collect L) (kids (kids P ! j)))
                   @ concat (map (collect L) (kids (kids P ! Suc j)))
                   @ concat (map (collect L) (drop (Suc (Suc j)) (kids P))) @ Y"
proof -
  let ?ks = "kids P"
  from collect_updateKids[OF P u, of L] obtain X Y where
    ab: "collect L t = X @ collect L P @ Y"
        "collect L t' = X @ collect L (Node (nid P) (nname P) (mergeKids j ?ks)) @ Y" by auto
  have j': "j < length ?ks" using j by simp
  have dj: "drop (Suc j) ?ks = ?ks ! Suc j # drop (Suc (Suc j)) ?ks"
    using Cons_nth_drop_Suc[OF j] by simp
  have c: "concat (map (collect L) ?ks) = concat (map (collect L) (take j ?ks))
       @ collect L (?ks ! j) @ collect L (?ks ! Suc j) @ concat (map (collect L) (drop (Suc (Suc j)) ?ks))"
    using concat_map_nth[OF j', of "collect L"] dj by simp
  have 1: "collect L P = L (nid P) (nname P) (map label ?ks)
                   @ concat (map (collect L) (take j ?ks))
                   @ L (nid (?ks ! j)) (nname (?ks ! j)) (map label (kids (?ks ! j)))
                   @ concat (map (collect L) (kids (?ks ! j)))
                   @ L (nid (?ks ! Suc j)) (nname (?ks ! Suc j)) (map label (kids (?ks ! Suc j)))
                   @ concat (map (collect L) (kids (?ks ! Suc j)))
                   @ concat (map (collect L) (drop (Suc (Suc j)) ?ks))"
    by (subst collect_unfold, subst c, subst collect_unfold[of L "?ks ! j"],
        subst collect_unfold[of L "?ks ! Suc j"]) simp
  have 2: "collect L (Node (nid P) (nname P) (mergeKids j ?ks)) =
      L (nid P) (nname P) (map label (mergeKids j ?ks))
                   @ concat (map (collect L) (take j ?ks))
                   @ L (nid (?ks ! j)) (nname (?ks ! j))
                       (map label (kids (?ks ! j) @ kids (?ks ! Suc j)))
                   @ concat (map (collect L) (kids (?ks ! j)))
                   @ concat (map (collect L) (kids (?ks ! Suc j)))
                   @ concat (map (collect L) (drop (Suc (Suc j)) ?ks))"
    by (simp add: mergeKids_def)
  show ?thesis unfolding ab 1 2 by (intro exI[of _ X] exI[of _ Y]) simp
qed

lemma merge_ids:
  assumes P: "getNodeByPath t q = Some P" and j: "Suc j < length (kids P)"
    and u: "updateKids q (mergeKids j) t = Some t'"
  shows "\<exists>U V. ids t = U @ nid (kids P ! Suc j) # V \<and> ids t' = U @ V"
proof -
  from merge_collect[OF P j u, of "\<lambda>i n ls. [i]"] obtain X Y where
    ab: "ids t = X @ [nid P] @ concat (map ids (take j (kids P)))
                   @ [nid (kids P ! j)] @ concat (map ids (kids (kids P ! j)))
                   @ [nid (kids P ! Suc j)] @ concat (map ids (kids (kids P ! Suc j)))
                   @ concat (map ids (drop (Suc (Suc j)) (kids P))) @ Y"
        "ids t' = X @ [nid P] @ concat (map ids (take j (kids P)))
                   @ [nid (kids P ! j)] @ concat (map ids (kids (kids P ! j)))
                   @ concat (map ids (kids (kids P ! Suc j)))
                   @ concat (map ids (drop (Suc (Suc j)) (kids P))) @ Y"
    unfolding ids_collect[symmetric, abs_def] by blast
  show ?thesis unfolding ab
    by (intro exI[of _ "X @ [nid P] @ concat (map ids (take j (kids P)))
                   @ [nid (kids P ! j)] @ concat (map ids (kids (kids P ! j)))"]
              exI[of _ "concat (map ids (kids (kids P ! Suc j)))
                   @ concat (map ids (drop (Suc (Suc j)) (kids P))) @ Y"]) simp
qed

lemma mergeStep_total:
  "\<exists>t' c'. mergeStep (t, Some cur) (Some x) = Some (t', Some c')
     \<and> (nextSibling t cur \<noteq> Some x \<longrightarrow> t' = t \<and> c' = x)
     \<and> (nextSibling t cur = Some x \<longrightarrow> c' = cur \<and> length (ids t') < length (ids t))
     \<and> set (ids t') \<subseteq> set (ids t)"
proof (cases "nextSibling t cur = Some x")
  case False
  then show ?thesis by (simp add: mergeStep_def)
next
  case True
  from mergeStep_merge[OF True] obtain q P j where
    m: "getNodeByPath t q = Some P" "Suc j < length (kids P)"
       "mergeStep (t, Some cur) (Some x) =
           (case updateKids q (mergeKids j) t of None \<Rightarrow> None | Some t' \<Rightarrow> Some (t', Some cur))" by blast
  from updateKids_Some[OF m(1), of "mergeKids j"] obtain t' where u: "updateKids q (mergeKids j) t = Some t'" by auto
  from merge_ids[OF m(1,2) u] obtain U V where uv: "ids t = U @ nid (kids P ! Suc j) # V" "ids t' = U @ V" by blast
  have "length (ids t') < length (ids t)" "set (ids t') \<subseteq> set (ids t)" unfolding uv by auto
  with m(3) u True show ?thesis by simp
qed

lemma mergeSteps_total:
  "\<exists>t' l. mergeSteps (t, Some cur) (map Some rest) = Some (t', l)
     \<and> set (ids t') \<subseteq> set (ids t) \<and> length (ids t') \<le> length (ids t)
     \<and> ((\<forall>p\<in>set (pairs (cur # rest)). nextSibling t (fst p) \<noteq> Some (snd p)) \<longrightarrow> t' = t)
     \<and> (\<not> (\<forall>p\<in>set (pairs (cur # rest)). nextSibling t (fst p) \<noteq> Some (snd p))
          \<longrightarrow> length (ids t') < length (ids t))"
proof (induction rest arbitrary: t cur)
  case Nil
  then show ?case by simp
next
  case (Cons x rest)
  from mergeStep_total[of t cur x] obtain t1 c1 where
    s: "mergeStep (t, Some cur) (Some x) = Some (t1, Some c1)"
       "nextSibling t cur \<noteq> Some x \<longrightarrow> t1 = t \<and> c1 = x"
       "nextSibling t cur = Some x \<longrightarrow> c1 = cur \<and> length (ids t1) < length (ids t)"
       "set (ids t1) \<subseteq> set (ids t)" by blast
  from Cons.IH[of t1 c1] obtain t' l where
    ih: "mergeSteps (t1, Some c1) (map Some rest) = Some (t', l)"
        "set (ids t') \<subseteq> set (ids t1)" "length (ids t') \<le> length (ids t1)"
        "(\<forall>p\<in>set (pairs (c1 # rest)). nextSibling t1 (fst p) \<noteq> Some (snd p)) \<longrightarrow> t' = t1"
        "\<not> (\<forall>p\<in>set (pairs (c1 # rest)). nextSibling t1 (fst p) \<noteq> Some (snd p))
          \<longrightarrow> length (ids t') < length (ids t1)" by blast
  have ms: "mergeSteps (t, Some cur) (map Some (x # rest)) = Some (t', l)" using s(1) ih(1) by simp
  have pr: "set (pairs (cur # x # rest)) = insert (cur, x) (set (pairs (x # rest)))" by simp
  show ?case
  proof (cases "nextSibling t cur = Some x")
    case True
    with s(3) have lt: "length (ids t1) < length (ids t)" by simp
    with ih(3) have "length (ids t') < length (ids t)" by simp
    moreover have "\<not> (\<forall>p\<in>set (pairs (cur # x # rest)). nextSibling t (fst p) \<noteq> Some (snd p))"
      using True by simp
    ultimately show ?thesis using ms ih(2) s(4) by (intro exI[of _ t'] exI[of _ l]) auto
  next
    case False
    with s(2) have e: "t1 = t" "c1 = x" by simp_all
    have "(\<forall>p\<in>set (pairs (cur # x # rest)). nextSibling t (fst p) \<noteq> Some (snd p))
        \<longleftrightarrow> (\<forall>p\<in>set (pairs (x # rest)). nextSibling t (fst p) \<noteq> Some (snd p))"
      using False unfolding pr by simp
    with ih e ms show ?thesis by (intro exI[of _ t'] exI[of _ l]) simp
  qed
qed

lemma labels_path:
  "l \<in> set (labels t) \<longleftrightarrow> (\<exists>q n. getNodeByPath t q = Some n \<and> l = label n)"
  unfolding labels_def collect_path by (auto simp: label_def)

lemma map_fst_labels: "map fst (labels t) = ids t"
proof (induction t)
  case (Node i n ks)
  have "map fst (concat (map labels ks)) = concat (map ids ks)"
    using Node.IH by (induction ks) auto
  then show ?case by simp
qed

lemma label_unique:
  "distinct (ids t) \<Longrightarrow> (i, n) \<in> set (labels t) \<Longrightarrow> (i, n') \<in> set (labels t) \<Longrightarrow> n = n'"
proof -
  assume d: "distinct (ids t)" and a: "(i, n) \<in> set (labels t)" and b: "(i, n') \<in> set (labels t)"
  from d have "distinct (map fst (labels t))" by (simp add: map_fst_labels)
  from eq_key_imp_eq_value[OF this a b] show ?thesis .
qed

lemma merge_frame:
  assumes P: "getNodeByPath t q = Some P" and j: "Suc j < length (kids P)"
    and u: "updateKids q (mergeKids j) t = Some t'"
  shows "set (labels t') \<subseteq> set (labels t)"
    and "label (kids P ! j) \<in> set (labels t)" and "label (kids P ! Suc j) \<in> set (labels t)"
    and "distinct (ids t) \<Longrightarrow> distinct (ids t')"
    and "\<forall>f\<in>set (childFacts t). f \<in> set (childFacts t') \<or> fst f = label (kids P ! Suc j)
           \<or> (snd f = label (kids P ! Suc j) \<and> (fst f, label (kids P ! j)) \<in> set (childFacts t'))"
proof -
  let ?A = "kids P ! j" and ?B = "kids P ! Suc j"
  from merge_collect[OF P j u, of "\<lambda>i n ls. [(i, n)]", folded labels_def] obtain X Y where
    l: "labels t = X @ [(nid P, nname P)] @ concat (map labels (take j (kids P)))
                   @ [(nid ?A, nname ?A)] @ concat (map labels (kids ?A))
                   @ [(nid ?B, nname ?B)] @ concat (map labels (kids ?B))
                   @ concat (map labels (drop (Suc (Suc j)) (kids P))) @ Y"
       "labels t' = X @ [(nid P, nname P)] @ concat (map labels (take j (kids P)))
                   @ [(nid ?A, nname ?A)] @ concat (map labels (kids ?A))
                   @ concat (map labels (kids ?B))
                   @ concat (map labels (drop (Suc (Suc j)) (kids P))) @ Y" by blast
  show "set (labels t') \<subseteq> set (labels t)" unfolding l by auto
  show "label ?A \<in> set (labels t)" "label ?B \<in> set (labels t)" unfolding l by (auto simp: label_def)
  from merge_ids[OF P j u] obtain U V where uv: "ids t = U @ nid ?B # V" "ids t' = U @ V" by blast
  then show "distinct (ids t) \<Longrightarrow> distinct (ids t')" by auto
  from merge_collect[OF P j u, of "\<lambda>i n ls. map (\<lambda>l. (l, (i, n))) ls", folded childFacts_def] obtain X' Y' where
    c: "childFacts t = X' @ map (\<lambda>l. (l, (nid P, nname P))) (map label (kids P))
                   @ concat (map childFacts (take j (kids P)))
                   @ map (\<lambda>l. (l, (nid ?A, nname ?A))) (map label (kids ?A))
                   @ concat (map childFacts (kids ?A))
                   @ map (\<lambda>l. (l, (nid ?B, nname ?B))) (map label (kids ?B))
                   @ concat (map childFacts (kids ?B))
                   @ concat (map childFacts (drop (Suc (Suc j)) (kids P))) @ Y'"
       "childFacts t' = X' @ map (\<lambda>l. (l, (nid P, nname P))) (map label (mergeKids j (kids P)))
                   @ concat (map childFacts (take j (kids P)))
                   @ map (\<lambda>l. (l, (nid ?A, nname ?A))) (map label (kids ?A @ kids ?B))
                   @ concat (map childFacts (kids ?A))
                   @ concat (map childFacts (kids ?B))
                   @ concat (map childFacts (drop (Suc (Suc j)) (kids P))) @ Y'" by blast
  have j': "j < length (kids P)" using j by simp
  have ks: "kids P = take j (kids P) @ ?A # ?B # drop (Suc (Suc j)) (kids P)"
    using id_take_nth_drop[OF j'] Cons_nth_drop_Suc[OF j] by simp
  have "set (map label (kids P)) = set (map label (take j (kids P) @ ?A # ?B # drop (Suc (Suc j)) (kids P)))"
    using ks by simp
  then have pk: "set (map label (kids P)) = insert (label ?B) (set (map label (mergeKids j (kids P))))"
    by (auto simp: mergeKids_def label_def)
  show "\<forall>f\<in>set (childFacts t). f \<in> set (childFacts t') \<or> fst f = label ?B
           \<or> (snd f = label ?B \<and> (fst f, label ?A) \<in> set (childFacts t'))"
  proof
    fix f assume "f \<in> set (childFacts t)"
    then consider
        (p) "f \<in> set (map (\<lambda>l. (l, (nid P, nname P))) (map label (kids P)))"
      | (b) "f \<in> set (map (\<lambda>l. (l, (nid ?B, nname ?B))) (map label (kids ?B)))"
      | (o) "f \<in> set X' \<union> set (concat (map childFacts (take j (kids P))))
              \<union> set (map (\<lambda>l. (l, (nid ?A, nname ?A))) (map label (kids ?A)))
              \<union> set (concat (map childFacts (kids ?A))) \<union> set (concat (map childFacts (kids ?B)))
              \<union> set (concat (map childFacts (drop (Suc (Suc j)) (kids P)))) \<union> set Y'"
      unfolding c(1) set_append by blast
    then show "f \<in> set (childFacts t') \<or> fst f = label ?B
           \<or> (snd f = label ?B \<and> (fst f, label ?A) \<in> set (childFacts t'))"
    proof cases
      case p
      then obtain k where k: "k \<in> set (kids P)" "f = (label k, (nid P, nname P))" by auto
      from k(1) have "label k \<in> set (map label (kids P))" by simp
      with pk have "label k = label ?B \<or> label k \<in> set (map label (mergeKids j (kids P)))" by blast
      then show ?thesis
      proof
        assume "label k = label ?B" with k show ?thesis by simp
      next
        assume "label k \<in> set (map label (mergeKids j (kids P)))"
        with k(2) have "f \<in> set (map (\<lambda>l. (l, (nid P, nname P))) (map label (mergeKids j (kids P))))" by auto
        then show ?thesis unfolding c(2) set_append by blast
      qed
    next
      case b
      then obtain k where k: "k \<in> set (kids ?B)" "f = (label k, (nid ?B, nname ?B))" by auto
      then have "(label k, (nid ?A, nname ?A)) \<in> set (map (\<lambda>l. (l, (nid ?A, nname ?A))) (map label (kids ?A @ kids ?B)))"
        by auto
      then have "(label k, (nid ?A, nname ?A)) \<in> set (childFacts t')" unfolding c(2) set_append by blast
      with k show ?thesis by (simp add: label_def)
    next
      case o
      then have "f \<in> set (childFacts t')" unfolding c(2) set_append by auto
      then show ?thesis by simp
    qed
  qed
qed

lemma mergeSteps_keeps_blocked:
  assumes d0: "distinct (ids t0)" and notcb: "\<forall>b\<in>set bs. (b, ''codeBlock'') \<notin> set (labels t0)"
  shows "set (labels t) \<subseteq> set (labels t0) \<Longrightarrow> distinct (ids t) \<Longrightarrow>
     \<forall>b\<in>set bs. \<exists>n w. ((b, n), (w, ''codeBlock'')) \<in> set (childFacts t) \<Longrightarrow>
     (cur, ''codeBlock'') \<in> set (labels t0) \<Longrightarrow> \<forall>x\<in>set rest. (x, ''codeBlock'') \<in> set (labels t0) \<Longrightarrow>
     mergeSteps (t, Some cur) (map Some rest) = Some (t', l) \<Longrightarrow>
     distinct (ids t') \<and> (\<forall>b\<in>set bs. \<exists>n w. ((b, n), (w, ''codeBlock'')) \<in> set (childFacts t'))"
proof (induction rest arbitrary: t cur)
  case Nil
  then show ?case by simp
next
  case (Cons x rest)
  let ?cb = "''codeBlock''"
  show ?case
  proof (cases "nextSibling t cur = Some x")
    case False
    then have "mergeStep (t, Some cur) (Some x) = Some (t, Some x)" by (simp add: mergeStep_def)
    with Cons.prems(6) have "mergeSteps (t, Some x) (map Some rest) = Some (t', l)" by simp
    from Cons.IH[OF Cons.prems(1,2,3) _ _ this] Cons.prems(5) show ?thesis by simp
  next
    case True
    from mergeStep_merge[OF True] obtain q P j where
      m: "getNodeByPath t q = Some P" "Suc j < length (kids P)"
         "nid (kids P ! j) = cur" "nid (kids P ! Suc j) = x"
         "mergeStep (t, Some cur) (Some x) =
           (case updateKids q (mergeKids j) t of None \<Rightarrow> None | Some t' \<Rightarrow> Some (t', Some cur))" by blast
    from updateKids_Some[OF m(1), of "mergeKids j"] obtain t1 where u: "updateKids q (mergeKids j) t = Some t1" by auto
    note fr = merge_frame[OF m(1,2) u]
    have lA: "label (kids P ! j) = (cur, ?cb)"
    proof -
      have "(cur, nname (kids P ! j)) \<in> set (labels t0)" using fr(2) Cons.prems(1) m(3) by (auto simp: label_def)
      from label_unique[OF d0 this Cons.prems(4)] m(3) show ?thesis by (simp add: label_def)
    qed
    have lB: "label (kids P ! Suc j) = (x, ?cb)"
    proof -
      have "(x, nname (kids P ! Suc j)) \<in> set (labels t0)" using fr(3) Cons.prems(1) m(4) by (auto simp: label_def)
      moreover have "(x, ?cb) \<in> set (labels t0)" using Cons.prems(5) by simp
      ultimately show ?thesis using label_unique[OF d0] m(4) by (simp add: label_def)
    qed
    have bl1: "\<forall>b\<in>set bs. \<exists>n w. ((b, n), (w, ?cb)) \<in> set (childFacts t1)"
    proof
      fix b assume b: "b \<in> set bs"
      with Cons.prems(3) obtain n w where f: "((b, n), (w, ?cb)) \<in> set (childFacts t)" by blast
      from fr(5)[rule_format, OF f] consider "((b, n), (w, ?cb)) \<in> set (childFacts t1)"
        | "(b, n) = (x, ?cb)" | "((b, n), (cur, ?cb)) \<in> set (childFacts t1)"
        unfolding lA lB by auto
      then show "\<exists>n w. ((b, n), (w, ?cb)) \<in> set (childFacts t1)"
      proof cases
        case 2
        with Cons.prems(5) have "(b, ?cb) \<in> set (labels t0)" by simp
        with notcb b show ?thesis by blast
      qed blast+
    qed
    have "mergeSteps (t1, Some cur) (map Some rest) = Some (t', l)"
      using Cons.prems(6) m(5) u by simp
    from Cons.IH[OF _ fr(4)[OF Cons.prems(2)] bl1 Cons.prems(4) _ this] fr(1) Cons.prems(1,5)
    show ?thesis by auto
  qed
qed

lemma pairs_map: "pairs (map f xs) = map (\<lambda>p. (f (fst p), f (snd p))) (pairs xs)"
proof -
  have "zip (map f xs) (map f (tl xs)) = map (\<lambda>p. (f (fst p), f (snd p))) (zip xs (tl xs))"
    by (simp add: zip_map_map case_prod_unfold)
  then show ?thesis by (simp add: pairs_def map_tl)
qed

lemma mergesNothing_Some:
  "mergesNothing t (map Some cs) \<longleftrightarrow> (\<forall>p\<in>set (pairs cs). nextSibling t (fst p) \<noteq> Some (snd p))"
  by (simp add: mergesNothing_def pairs_map list_all_iff)

lemma applyBlock_blocked:
  assumes ne: "bs \<noteq> []" and bl: "\<forall>b\<in>set bs. isBlocked t b = Some True"
  shows "\<exists>c0 rest. recordedContainers t bs = map Some (c0 # rest)
     \<and> (\<forall>c\<in>set (c0 # rest). (c, ''codeBlock'') \<in> set (labels t))
     \<and> applyBlock t bs = (case mergeSteps (t, Some c0) (map Some rest) of None \<Rightarrow> None
                           | Some st \<Rightarrow> Some (fst st))"
proof -
  let ?R = "maximalRuns t bs"
  let ?c = "\<lambda>g. nid (the (parent t (hd g)))"
  have par: "\<forall>b\<in>set bs. parent t b \<noteq> None" using bl isBlocked_parent by fastforce
  from getRanges_runs[OF par]
  have rg: "getRangesOfBlockGroups t bs = Some (map (groupRange t) ?R)" .
  have g: "\<And>g. g \<in> set ?R \<Longrightarrow>
      findBlock t (Position (range_start (groupRange t g))) = Some (Some (?c g))
      \<and> containerOf t (hd g) = Some (?c g) \<and> (?c g, ''codeBlock'') \<in> set (labels t)"
  proof -
    fix g assume g: "g \<in> set ?R"
    from maximalRuns_nonempty[OF g] obtain b g' where bg: "g = b # g'" by (cases g) auto
    have "b \<in> set bs" using maximalRuns_subset[OF g] bg by auto
    with bl isBlocked_parent obtain par where
      p: "parent t b = Some par" "nname par = ''codeBlock''" by blast
    from parentD[OF p(1)] obtain q where "getNodeByPath t q = Some par" by auto
    then have "(nid par, ''codeBlock'') \<in> set (labels t)" using p(2) unfolding labels_path
      by (intro exI[of _ q] exI[of _ par]) (simp add: label_def)
    moreover have "containerOf t b = Some (nid par)"
      using p by (simp add: containerOf_def findBlock_def parentOf_def)
    ultimately show "findBlock t (Position (range_start (groupRange t g))) = Some (Some (?c g))
      \<and> containerOf t (hd g) = Some (?c g) \<and> (?c g, ''codeBlock'') \<in> set (labels t)"
      using findBlock_group_start[OF p(1), of g'] p bg by simp
  qed
  let ?rs = "rev (map (groupRange t) ?R)"
  have "\<forall>r\<in>set ?rs. \<exists>c. findBlock t (Position (range_start r)) = Some (Some c)" using g by auto
  from applyBlockGroups_reuse[OF this, of "[]"]
  have ag: "applyBlockGroups (t, []) ?rs =
     Some (t, map (\<lambda>r. the (findBlock t (Position (range_start r)))) ?rs)" by simp
  have rv: "rev (map (\<lambda>r. the (findBlock t (Position (range_start r)))) ?rs) = map Some (map ?c ?R)"
    using g by (simp add: rev_map comp_def)
  have rc: "recordedContainers t bs = map Some (map ?c ?R)"
    using g by (simp add: recordedContainers_def)
  have "map ?c ?R \<noteq> []" using ne by simp
  then obtain c0 rest where cs: "map ?c ?R = c0 # rest" by (cases "map ?c ?R") auto
  have lab: "\<forall>c\<in>set (c0 # rest). (c, ''codeBlock'') \<in> set (labels t)"
    using g unfolding cs[symmetric] by auto
  have "applyBlock t bs = reduceMerge t (map Some (c0 # rest))"
    using rg ag rv cs by (simp add: applyBlock_def)
  also have "\<dots> = (case mergeSteps (t, Some c0) (map Some rest) of None \<Rightarrow> None
                           | Some st \<Rightarrow> Some (fst st))"
    by (simp add: reduceMerge_def split: option.splits)
  finally show ?thesis using rc cs lab by (intro exI[of _ c0] exI[of _ rest]) simp
qed

text \<open>
  Claim C5, as amended. For every non-empty selection in which every selected block is
  already a direct child of a container, the selection passes the filter of the Wrap path
  unchanged, \<^verbatim>\<open>value\<close> is true, and \<^verbatim>\<open>_applyBlock\<close> returns a tree with no new
  element (no container is created). The tree it returns is the tree it was given (no node
  is moved or removed) if and only if no container recorded for a group has the container
  recorded for the next group as its next sibling; otherwise the tree it returns has
  fewer elements. In a tree with distinct identities in which no selected block is itself a
  code block, every selected block is still a direct child of a container afterwards, so
  \<^verbatim>\<open>value\<close> stays true.
\<close>

theorem applyBlock_blocked_selection_unchanged:
  assumes "selectedBlocks ed \<noteq> []"
    and "\<forall>b\<in>set (selectedBlocks ed). isBlocked (document ed) b = Some True"
  shows "blocksToBlock ed = Some (selectedBlocks ed) \<and> getValue ed = Some True
     \<and> (\<exists>t'. applyBlock (document ed) (selectedBlocks ed) = Some t'
          \<and> set (ids t') \<subseteq> set (ids (document ed))
          \<and> (t' = document ed \<longleftrightarrow>
               mergesNothing (document ed) (recordedContainers (document ed) (selectedBlocks ed)))
          \<and> (t' \<noteq> document ed \<longrightarrow> length (ids t') < length (ids (document ed)))
          \<and> (distinct (ids (document ed))
               \<and> (\<forall>b\<in>set (selectedBlocks ed). nameOf (document ed) b \<noteq> Some ''codeBlock'')
             \<longrightarrow> (\<forall>b\<in>set (selectedBlocks ed). isBlocked t' b = Some True)
                  \<and> getValue (ed\<lparr>document := t'\<rparr>) = Some True))"
proof -
  let ?t = "document ed" and ?bs = "selectedBlocks ed"
  let ?cb = "''codeBlock''"
  have can: "\<forall>b\<in>set ?bs. canBlock (schema ed) ?t b = Some True"
    using assms(2) by (auto simp: canBlock_def isBlocked_def split: bind_splits)
  from filterBlocks_all[OF this] have b2b: "blocksToBlock ed = Some ?bs" by (simp add: blocksToBlock_def)
  obtain b0 bs' where sel: "?bs = b0 # bs'" using assms(1) by (cases ?bs) auto
  with assms(2) have gv: "getValue ed = Some True" by (simp add: getValue_def first_def)
  from applyBlock_blocked[OF assms] obtain c0 rest where
    r: "recordedContainers ?t ?bs = map Some (c0 # rest)"
       "\<forall>c\<in>set (c0 # rest). (c, ?cb) \<in> set (labels ?t)"
       "applyBlock ?t ?bs = (case mergeSteps (?t, Some c0) (map Some rest) of None \<Rightarrow> None
                           | Some st \<Rightarrow> Some (fst st))" by blast
  from mergeSteps_total[of ?t c0 rest] obtain t' l where
    m: "mergeSteps (?t, Some c0) (map Some rest) = Some (t', l)"
       "set (ids t') \<subseteq> set (ids ?t)"
       "(\<forall>p\<in>set (pairs (c0 # rest)). nextSibling ?t (fst p) \<noteq> Some (snd p)) \<longrightarrow> t' = ?t"
       "\<not> (\<forall>p\<in>set (pairs (c0 # rest)). nextSibling ?t (fst p) \<noteq> Some (snd p))
          \<longrightarrow> length (ids t') < length (ids ?t)" by blast
  have ab: "applyBlock ?t ?bs = Some t'" using r(3) m(1) by simp
  have mn: "mergesNothing ?t (recordedContainers ?t ?bs) \<longleftrightarrow>
      (\<forall>p\<in>set (pairs (c0 # rest)). nextSibling ?t (fst p) \<noteq> Some (snd p))"
    unfolding r(1) by (rule mergesNothing_Some)
  have iff: "t' = ?t \<longleftrightarrow> mergesNothing ?t (recordedContainers ?t ?bs)"
    using m(3,4) unfolding mn by auto
  have less: "t' \<noteq> ?t \<longrightarrow> length (ids t') < length (ids ?t)"
    using m(3,4) by auto
  have keep: "distinct (ids ?t) \<and> (\<forall>b\<in>set ?bs. nameOf ?t b \<noteq> Some ?cb)
             \<longrightarrow> (\<forall>b\<in>set ?bs. isBlocked t' b = Some True)
                  \<and> getValue (ed\<lparr>document := t'\<rparr>) = Some True"
  proof (intro impI, elim conjE)
    assume d: "distinct (ids ?t)" and nc: "\<forall>b\<in>set ?bs. nameOf ?t b \<noteq> Some ?cb"
    have notcb: "\<forall>b\<in>set ?bs. (b, ?cb) \<notin> set (labels ?t)"
    proof (intro ballI notI)
      fix b assume b: "b \<in> set ?bs" and "(b, ?cb) \<in> set (labels ?t)"
      then obtain q n where n: "getNodeByPath ?t q = Some n" "label n = (b, ?cb)"
        unfolding labels_path by auto
      from getPath_unique[OF d n(1)] n have "nameOf ?t b = Some ?cb" by (simp add: nameOf_def label_def)
      with nc b show False by simp
    qed
    have bl: "\<forall>b\<in>set ?bs. \<exists>n w. ((b, n), (w, ?cb)) \<in> set (childFacts ?t)"
    proof
      fix b assume "b \<in> set ?bs"
      with assms(2) isBlocked_parent obtain par where p: "parent ?t b = Some par" "nname par = ?cb" by blast
      from parent_childFact[OF p(1)] p(2) show "\<exists>n w. ((b, n), (w, ?cb)) \<in> set (childFacts ?t)"
        by (auto simp: label_def)
    qed
    from mergeSteps_keeps_blocked[OF d notcb _ d bl _ _ m(1)] r(2)
    have d': "distinct (ids t')" and bl': "\<forall>b\<in>set ?bs. \<exists>n w. ((b, n), (w, ?cb)) \<in> set (childFacts t')"
      by auto
    have all: "\<forall>b\<in>set ?bs. isBlocked t' b = Some True"
    proof
      fix b assume "b \<in> set ?bs"
      with bl' obtain n w where "((b, n), (w, ?cb)) \<in> set (childFacts t')" by blast
      from childFact_parent[OF d' this] obtain par where "parent t' b = Some par" "label par = (w, ?cb)" by blast
      then show "isBlocked t' b = Some True"
        by (simp add: isBlocked_def findBlock_def parentOf_def label_def)
    qed
    then have "getValue (ed\<lparr>document := t'\<rparr>) = Some True"
      using sel by (simp add: getValue_def first_def)
    with all show "(\<forall>b\<in>set ?bs. isBlocked t' b = Some True)
                  \<and> getValue (ed\<lparr>document := t'\<rparr>) = Some True" by simp
  qed
  show ?thesis using b2b gv ab m(2) iff less keep by (intro conjI exI[of _ t'])
qed

theorem applyBlock_blocked_selection_unchanged_example:
  "selectedBlocks spacedBlocksEditor \<noteq> []
   \<and> list_all (\<lambda>b. isBlocked (document spacedBlocksEditor) b = Some True)
        (selectedBlocks spacedBlocksEditor)
   \<and> adjacentContainers (document spacedBlocksEditor)
   \<and> mergesNothing (document spacedBlocksEditor)
        (recordedContainers (document spacedBlocksEditor) (selectedBlocks spacedBlocksEditor))
   \<and> applyBlock (document spacedBlocksEditor) (selectedBlocks spacedBlocksEditor)
       = Some (document spacedBlocksEditor)"
proof -
  have n: "selectedBlocks spacedBlocksEditor \<noteq> []" by (simp add: spacedBlocksEditor_def)
  have b: "list_all (\<lambda>b. isBlocked (document spacedBlocksEditor) b = Some True)
        (selectedBlocks spacedBlocksEditor)" by code_simp
  have b': "\<forall>b\<in>set (selectedBlocks spacedBlocksEditor). isBlocked (document spacedBlocksEditor) b = Some True"
    using b by (simp add: list_all_iff)
  have a: "adjacentContainers (document spacedBlocksEditor)" by code_simp
  have m: "mergesNothing (document spacedBlocksEditor)
        (recordedContainers (document spacedBlocksEditor) (selectedBlocks spacedBlocksEditor))"
    by code_simp
  from applyBlock_blocked_selection_unchanged[OF n b'] m
  have "applyBlock (document spacedBlocksEditor) (selectedBlocks spacedBlocksEditor)
       = Some (document spacedBlocksEditor)" by auto
  with n b a m show ?thesis by simp
qed

text \<open>
  Claim C5, as stated, fails: with two adjacent code blocks in the root, each holding one
  paragraph, and both paragraphs selected (every selected block is inside a container),
  the forward merge pass of \<^verbatim>\<open>_applyBlock\<close> merges the second code block into the
  first.
\<close>

theorem applyBlock_merges_adjacent_blocks:
  "isBlocked twoBlocksDoc 1 = Some True \<and> isBlocked twoBlocksDoc 2 = Some True
   \<and> applyBlock twoBlocksDoc [1, 2] =
       Some (Node 0 ''$root'' [Node 9 ''codeBlock'' [paragraphNode 1, paragraphNode 2]])
   \<and> Node 0 ''$root'' [Node 9 ''codeBlock'' [paragraphNode 1, paragraphNode 2]] \<noteq> twoBlocksDoc"
  by code_simp


section \<open>The containers of the Wrap path after the merge pass\<close>





end
